theory Spec2Isabelle
  imports Main
begin

section \<open>Python values shared by the pipeline\<close>

text \<open>
  A Python \<^verbatim>\<open>str\<close> is a sequence of Unicode code points; it is modelled as a list of
  natural numbers, one per code point, so that \<^verbatim>\<open>len\<close> is \<open>length\<close>.  ASCII literals
  of the source are written \<open>u ''...''\<close>.  The type tags of tokens, AST nodes and symbols
  are program constants and are kept as Isabelle strings.  A value that may be
  \<^verbatim>\<open>None\<close> is an \<open>option\<close>.
\<close>

type_synonym pystr = "nat list"
type_synonym pyval = "pystr option"

definition u :: "string \<Rightarrow> pystr" where
  "u s = map of_char s"

text \<open>
  The exceptions the modelled code can raise, each with what \<^verbatim>\<open>str(e)\<close> needs.
  \<^verbatim>\<open>RecursionError\<close> is raised by the interpreter, at a call that would nest deeper
  than its recursion limit allows.
\<close>

datatype exn =
    SyntaxError pystr
  | IndexError
  | KeyError pyval
  | TypeError pystr
  | AttributeError pystr
  | RecursionError

section \<open>semantic\_analyzer.py: Symbol and SymbolTable\<close>

record symbol =
  sym_name :: pyval
  sym_type :: string
  sym_scope :: pyval
  sym_value :: pyval

record symbol_table =
  symbols :: "pyval \<rightharpoonup> (pyval \<rightharpoonup> symbol)"
  current_scope :: pyval

definition GLOBAL :: pyval where
  "GLOBAL = Some (u ''global'')"

text \<open>\<^verbatim>\<open>SymbolTable.__init__\<close>\<close>

definition SymbolTable :: symbol_table where
  "SymbolTable = \<lparr>symbols = [GLOBAL \<mapsto> Map.empty], current_scope = GLOBAL\<rparr>"

definition enter_scope :: "pyval \<Rightarrow> symbol_table \<Rightarrow> symbol_table" where
  "enter_scope scope_name self =
     (let self1 = (if symbols self scope_name = None
                   then self\<lparr>symbols := (symbols self)(scope_name \<mapsto> Map.empty)\<rparr>
                   else self)
      in self1\<lparr>current_scope := scope_name\<rparr>)"

definition exit_scope :: "symbol_table \<Rightarrow> symbol_table" where
  "exit_scope self = self\<lparr>current_scope := GLOBAL\<rparr>"

text \<open>
  \<^verbatim>\<open>self.symbols[self.current_scope][name] = symbol\<close> raises KeyError when the current
  scope is not a key of the scope map.
\<close>

definition add_symbol :: "pyval \<Rightarrow> string \<Rightarrow> symbol_table \<Rightarrow> exn + (symbol \<times> symbol_table)" where
  "add_symbol name symbol_type self =
     (let symbol = \<lparr>sym_name = name, sym_type = symbol_type,
                     sym_scope = current_scope self, sym_value = None\<rparr>
      in case symbols self (current_scope self) of
           None \<Rightarrow> Inl (KeyError (current_scope self))
         | Some scope \<Rightarrow>
             Inr (symbol, self\<lparr>symbols := (symbols self)(current_scope self \<mapsto> scope(name \<mapsto> symbol))\<rparr>))"

definition lookup :: "pyval \<Rightarrow> symbol_table \<Rightarrow> exn + symbol option" where
  "lookup name self =
     (case symbols self (current_scope self) of
        None \<Rightarrow> Inl (KeyError (current_scope self))
      | Some scope \<Rightarrow>
          (case scope name of
             Some found \<Rightarrow> Inr (Some found)
           | None \<Rightarrow>
               (case symbols self GLOBAL of
                  None \<Rightarrow> Inl (KeyError GLOBAL)
                | Some g \<Rightarrow> Inr (g name))))"

text \<open>A client's call of one of the four methods, and a sequence of such calls.\<close>

datatype st_call =
    Enter_scope pyval
  | Exit_scope
  | Add_symbol pyval string
  | Lookup pyval

fun run_call :: "st_call \<Rightarrow> symbol_table \<Rightarrow> exn + symbol_table" where
  "run_call (Enter_scope n) t = Inr (enter_scope n t)"
| "run_call Exit_scope t = Inr (exit_scope t)"
| "run_call (Add_symbol n ty) t =
     (case add_symbol n ty t of Inl e \<Rightarrow> Inl e | Inr (_, t') \<Rightarrow> Inr t')"
| "run_call (Lookup n) t =
     (case lookup n t of Inl e \<Rightarrow> Inl e | Inr _ \<Rightarrow> Inr t)"

fun run_calls :: "st_call list \<Rightarrow> symbol_table \<Rightarrow> exn + symbol_table" where
  "run_calls [] t = Inr t"
| "run_calls (c # cs) t =
     (case run_call c t of Inl e \<Rightarrow> Inl e | Inr t' \<Rightarrow> run_calls cs t')"

definition st_inv :: "symbol_table \<Rightarrow> bool" where
  "st_inv t = (symbols t GLOBAL \<noteq> None \<and> symbols t (current_scope t) \<noteq> None)"

section \<open>config.py\<close>

text \<open>
  The two tables the lexer reads, in their declared order.  The accented letters of
  the source are given by their code points (225 is a-acute, 243 is o-acute).
\<close>

definition SPECIAL_TOKENS :: "(string \<times> pystr list) list" where
  "SPECIAL_TOKENS =
     [(''VARIABLE'', [u ''var'', u ''variable'']),
      (''FUNCTION'', [u ''funci'' @ [243] @ u ''n'', u ''funcion'', u ''def'', u ''definir'']),
      (''LOOP'', [u ''para'', u ''mientras'', u ''for'', u ''while'']),
      (''CONDITION'', [u ''si'', u ''if'', u ''sino'', u ''else'']),
      (''OPERATOR'', [u ''m'' @ [225] @ u ''s'', u ''mas'', u ''menos'', u ''por'',
                      u ''dividido'', u ''igual'', u ''mayor'', u ''menor'']),
      (''DATA_TYPE'', [u ''entero'', u ''flotante'', u ''cadena'', u ''booleano'',
                       u ''lista'', u ''diccionario''])]"

definition KEYWORD_MAPPING :: "(pystr \<times> pystr) list" where
  "KEYWORD_MAPPING =
     [(u ''si'', u ''if''),
      (u ''sino'', u ''else''),
      (u ''para'', u ''for''),
      (u ''mientras'', u ''while''),
      (u ''en'', u ''in''),
      (u ''rango'', u ''range''),
      (u ''funci'' @ [243] @ u ''n'', u ''def''),
      (u ''funcion'', u ''def''),
      (u ''devolver'', u ''return''),
      (u ''verdadero'', u ''True''),
      (u ''falso'', u ''False''),
      (u ''y'', u ''and''),
      (u ''o'', u ''or''),
      (u ''no'', u ''not''),
      (u ''imprimir'', u ''print''),
      (u ''clase'', u ''class'')]"

section \<open>lexical\_analyzer.py: Token and LexicalAnalyzer\<close>

record token =
  tok_type :: string
  tok_value :: pystr
  tok_position :: int

definition Token :: "string \<Rightarrow> pystr \<Rightarrow> int \<Rightarrow> token" where
  "Token token_type v p = \<lparr>tok_type = token_type, tok_value = v, tok_position = p\<rparr>"

text \<open>
  A dictionary of the configuration is an association list in declaration order
  (the special-token categories are iterated in that order); \<open>map_of\<close> is the
  dictionary lookup.
\<close>

record lexical_analyzer =
  special_tokens :: "(string \<times> pystr list) list"
  keyword_mapping :: "(pystr \<times> pystr) list"

text \<open>
  \<^verbatim>\<open>LexicalAnalyzer.__init__\<close>: an argument that is \<^verbatim>\<open>None\<close> or an empty dictionary
  is replaced by the default table (\<^verbatim>\<open>special_tokens or SPECIAL_TOKENS\<close>).
\<close>

definition LexicalAnalyzer ::
  "(string \<times> pystr list) list option \<Rightarrow> (pystr \<times> pystr) list option \<Rightarrow> lexical_analyzer" where
  "LexicalAnalyzer st km =
     \<lparr>special_tokens = (case st of None \<Rightarrow> SPECIAL_TOKENS | Some d \<Rightarrow> if d = [] then SPECIAL_TOKENS else d),
      keyword_mapping = (case km of None \<Rightarrow> KEYWORD_MAPPING | Some d \<Rightarrow> if d = [] then KEYWORD_MAPPING else d)\<rparr>"

text \<open>\<^verbatim>\<open>map_to_python_tokens\<close>: the loop over the tokens, appending one token each.\<close>

fun map_to_python_tokens :: "lexical_analyzer \<Rightarrow> token list \<Rightarrow> token list" where
  "map_to_python_tokens self [] = []"
| "map_to_python_tokens self (token # tokens) =
     (if tok_type token = ''KEYWORD'' \<and> map_of (keyword_mapping self) (tok_value token) \<noteq> None
      then Token (tok_type token) (the (map_of (keyword_mapping self) (tok_value token))) (tok_position token)
      else token)
     # map_to_python_tokens self tokens"


section \<open>Characters: the classes of \<^verbatim>\<open>re\<close> and \<^verbatim>\<open>str\<close>\<close>

text \<open>
  \<^verbatim>\<open>\w\<close>, \<^verbatim>\<open>\d\<close> and \<^verbatim>\<open>str.lower\<close> consult the Unicode tables of the Python
  runtime, which are not part of the repository.  On ASCII they are written out; beyond
  ASCII they are the parameter \<open>U\<close>: \<open>uni_isalnum\<close> (\<^verbatim>\<open>str.isalnum\<close>),
  \<open>uni_isdecimal\<close> (\<^verbatim>\<open>str.isdecimal\<close>) and \<open>uni_lower\<close> (\<^verbatim>\<open>str.lower\<close> of a string
  that is not pure ASCII).  \<^verbatim>\<open>\s\<close> and \<^verbatim>\<open>str.strip\<close> use the white-space code points,
  which are few enough to list.
\<close>

record unicode =
  uni_isalnum :: "nat \<Rightarrow> bool"
  uni_isdecimal :: "nat \<Rightarrow> bool"
  uni_lower :: "pystr \<Rightarrow> pystr"

definition ascii_letter :: "nat \<Rightarrow> bool" where
  "ascii_letter c = ((65 \<le> c \<and> c \<le> 90) \<or> (97 \<le> c \<and> c \<le> 122))"

definition ascii_digit :: "nat \<Rightarrow> bool" where
  "ascii_digit c = (48 \<le> c \<and> c \<le> 57)"

definition ascii_word :: "nat \<Rightarrow> bool" where
  "ascii_word c = (ascii_letter c \<or> ascii_digit c \<or> c = 95)"

definition re_w :: "unicode \<Rightarrow> nat \<Rightarrow> bool" where
  "re_w U c = (if c < 128 then ascii_word c else uni_isalnum U c)"

definition re_d :: "unicode \<Rightarrow> nat \<Rightarrow> bool" where
  "re_d U c = (if c < 128 then ascii_digit c else uni_isdecimal U c)"

definition isspace :: "nat \<Rightarrow> bool" where
  "isspace c = ((9 \<le> c \<and> c \<le> 13) \<or> (28 \<le> c \<and> c \<le> 32) \<or> c = 133 \<or> c = 160 \<or> c = 5760
                \<or> (8192 \<le> c \<and> c \<le> 8202) \<or> c = 8232 \<or> c = 8233 \<or> c = 8239 \<or> c = 8287
                \<or> c = 12288)"

definition ascii_lower :: "nat \<Rightarrow> nat" where
  "ascii_lower c = (if 65 \<le> c \<and> c \<le> 90 then c + 32 else c)"

definition str_lower :: "unicode \<Rightarrow> pystr \<Rightarrow> pystr" where
  "str_lower U s = (if list_all (\<lambda>c. c < 128) s then map ascii_lower s else uni_lower U s)"

definition str_strip :: "pystr \<Rightarrow> pystr" where
  "str_strip s = rev (dropWhile isspace (rev (dropWhile isspace s)))"

section \<open>utils.py: normalize\_text\<close>

text \<open>
  \<open>sub_spaces\<close> is \<^verbatim>\<open>re.sub(r'\s+', ' ', text)\<close>: every maximal run of white space
  becomes one space (code point 32).  The punctuation kept by the first substitution
  ends with the inverted question and exclamation marks (191 and 161).
\<close>

function sub_spaces :: "pystr \<Rightarrow> pystr" where
  "sub_spaces [] = []"
| "sub_spaces (c # cs) =
     (if isspace c then 32 # sub_spaces (dropWhile isspace cs) else c # sub_spaces cs)"
  by pat_completeness auto
termination
  by (relation "measure length") (auto simp: less_Suc_eq_le length_dropWhile_le)

definition kept_punctuation :: pystr where
  "kept_punctuation = u ''.,;:?!'' @ [191, 161]"

definition normalize_text :: "unicode \<Rightarrow> pystr \<Rightarrow> pystr" where
  "normalize_text U text =
     (let text1 = str_lower U text;
          text2 = filter (\<lambda>c. re_w U c \<or> isspace c \<or> c \<in> set kept_punctuation) text1
      in str_strip (sub_spaces text2))"

section \<open>lexical\_analyzer.py: the patterns and tokenize\<close>

text \<open>
  Each regular expression of \<^verbatim>\<open>_build_token_patterns\<close> is the function that
  \<^verbatim>\<open>regex.match(text, position)\<close> computes on the text from \<open>position\<close> on: the length
  of the match, or None.  Every quantifier in them is greedy and is followed by
  something the repeated class excludes, so giving characters back never helps and
  \<open>takeWhile\<close> is the match.  In order:
  \<^verbatim>\<open>[a-zA-Z_][a-zA-Z0-9_]*\<close>, \<^verbatim>\<open>\d+\.\d+\<close>, \<^verbatim>\<open>\d+\<close>, \<^verbatim>\<open>[+\-*/=<>!]=?\<close>,
  \<^verbatim>\<open>[\(\)\[\]\{\},;:]\<close>, the two quoted strings (quote 34 or 39) and \<^verbatim>\<open>\s+\<close>.
\<close>

definition re_word :: "pystr \<Rightarrow> nat option" where
  "re_word rest =
     (case rest of
        [] \<Rightarrow> None
      | c # cs \<Rightarrow> if ascii_letter c \<or> c = 95 then Some (Suc (length (takeWhile ascii_word cs))) else None)"

definition re_float :: "unicode \<Rightarrow> pystr \<Rightarrow> nat option" where
  "re_float U rest =
     (let whole = takeWhile (re_d U) rest in
      if whole = [] then None
      else (case drop (length whole) rest of
              [] \<Rightarrow> None
            | c # cs \<Rightarrow>
                if c = 46 \<and> takeWhile (re_d U) cs \<noteq> []
                then Some (length whole + 1 + length (takeWhile (re_d U) cs))
                else None))"

definition re_integer :: "unicode \<Rightarrow> pystr \<Rightarrow> nat option" where
  "re_integer U rest =
     (let whole = takeWhile (re_d U) rest in if whole = [] then None else Some (length whole))"

definition re_operator :: "pystr \<Rightarrow> nat option" where
  "re_operator rest =
     (case rest of
        [] \<Rightarrow> None
      | c # cs \<Rightarrow>
          if c \<in> set (u ''+-*/=<>!'')
          then (case cs of [] \<Rightarrow> Some 1 | d # _ \<Rightarrow> if d = 61 then Some 2 else Some 1)
          else None)"

definition re_delimiter :: "pystr \<Rightarrow> nat option" where
  "re_delimiter rest =
     (case rest of
        [] \<Rightarrow> None
      | c # cs \<Rightarrow> if c \<in> set (u ''()[]{},;:'') then Some 1 else None)"

definition re_string :: "nat \<Rightarrow> pystr \<Rightarrow> nat option" where
  "re_string quote rest =
     (case rest of
        [] \<Rightarrow> None
      | c # cs \<Rightarrow>
          if c = quote \<and> length (takeWhile (\<lambda>d. d \<noteq> quote) cs) < length cs
          then Some (length (takeWhile (\<lambda>d. d \<noteq> quote) cs) + 2)
          else None)"

definition re_whitespace :: "pystr \<Rightarrow> nat option" where
  "re_whitespace rest =
     (let run = takeWhile isspace rest in if run = [] then None else Some (length run))"

text \<open>\<^verbatim>\<open>_identify_word\<close>, with its loop over the special-token categories.\<close>

definition python_keywords :: "pystr list" where
  "python_keywords = map u [''def'', ''if'', ''else'', ''elif'', ''for'', ''while'', ''in'', ''return'',
     ''and'', ''or'', ''not'', ''True'', ''False'', ''None'', ''print'', ''class'']"

fun special_token_type :: "(string \<times> pystr list) list \<Rightarrow> pystr \<Rightarrow> string option" where
  "special_token_type [] word = None"
| "special_token_type ((token_type, words) # items) word =
     (if word \<in> set words then Some token_type else special_token_type items word)"

definition identify_word :: "unicode \<Rightarrow> lexical_analyzer \<Rightarrow> pystr \<Rightarrow> int \<Rightarrow> token" where
  "identify_word U self match p =
     (let word = str_lower U match in
      if word \<in> set python_keywords then Token ''KEYWORD'' word p
      else (case map_of (keyword_mapping self) word of
              Some mapped \<Rightarrow> Token ''KEYWORD'' mapped p
            | None \<Rightarrow>
                (case special_token_type (special_tokens self) word of
                   Some token_type \<Rightarrow> Token token_type word p
                 | None \<Rightarrow> Token ''IDENTIFIER'' word p)))"

text \<open>
  A pattern is a regular expression with its token function, None for white space.
  \<open>try_patterns\<close> is the inner \<^verbatim>\<open>for\<close> loop: at the first pattern that matches it
  yields the tokens to append (one or none) and \<^verbatim>\<open>match.end()\<close>.
\<close>

type_synonym pattern = "(pystr \<Rightarrow> nat option) \<times> (pystr \<Rightarrow> int \<Rightarrow> token) option"

definition build_token_patterns :: "unicode \<Rightarrow> lexical_analyzer \<Rightarrow> pattern list" where
  "build_token_patterns U self =
     [(re_word, Some (identify_word U self)),
      (re_float U, Some (Token ''FLOAT'')),
      (re_integer U, Some (Token ''INTEGER'')),
      (re_operator, Some (Token ''OPERATOR'')),
      (re_delimiter, Some (Token ''DELIMITER'')),
      (re_string 34, Some (Token ''STRING'')),
      (re_string 39, Some (Token ''STRING'')),
      (re_whitespace, None)]"

fun try_patterns :: "pattern list \<Rightarrow> pystr \<Rightarrow> nat \<Rightarrow> (token list \<times> nat) option" where
  "try_patterns [] text position = None"
| "try_patterns ((regex, token_func) # patterns) text position =
     (case regex (drop position text) of
        Some n \<Rightarrow>
          Some (case token_func of
                  Some f \<Rightarrow> [f (take n (drop position text)) (int position)]
                | None \<Rightarrow> [],
                position + n)
      | None \<Rightarrow> try_patterns patterns text position)"

lemma re_word_pos: "re_word r = Some n \<Longrightarrow> 0 < n"
  by (auto simp: re_word_def split: list.splits if_splits)
lemma re_float_pos: "re_float U r = Some n \<Longrightarrow> 0 < n"
  by (auto simp: re_float_def Let_def split: list.splits if_splits)
lemma re_integer_pos: "re_integer U r = Some n \<Longrightarrow> 0 < n"
  by (auto simp: re_integer_def Let_def split: list.splits if_splits)
lemma re_operator_pos: "re_operator r = Some n \<Longrightarrow> 0 < n"
  by (auto simp: re_operator_def split: list.splits if_splits)
lemma re_delimiter_pos: "re_delimiter r = Some n \<Longrightarrow> 0 < n"
  by (auto simp: re_delimiter_def split: list.splits if_splits)
lemma re_string_pos: "re_string q r = Some n \<Longrightarrow> 0 < n"
  by (auto simp: re_string_def split: list.splits if_splits)
lemma re_whitespace_pos: "re_whitespace r = Some n \<Longrightarrow> 0 < n"
  by (auto simp: re_whitespace_def Let_def split: list.splits if_splits)

lemma try_patterns_progress:
  "try_patterns (build_token_patterns U self) text position = Some (toks, e) \<Longrightarrow> position < e"
  by (auto simp: build_token_patterns_def split: option.splits
        dest: re_word_pos re_float_pos re_integer_pos re_operator_pos re_delimiter_pos
              re_string_pos re_whitespace_pos)

text \<open>The \<^verbatim>\<open>while\<close> loop of tokenize; it returns the tokens and the final position.\<close>

function tokenize_loop ::
  "unicode \<Rightarrow> lexical_analyzer \<Rightarrow> pystr \<Rightarrow> nat \<Rightarrow> token list \<Rightarrow> token list \<times> nat" where
  "tokenize_loop U self text position tokens =
     (if position < length text
      then (case try_patterns (build_token_patterns U self) text position of
              Some (emitted, match_end) \<Rightarrow> tokenize_loop U self text match_end (tokens @ emitted)
            | None \<Rightarrow> tokenize_loop U self text (position + 1) tokens)
      else (tokens, position))"
  by pat_completeness auto
termination
  by (relation "measure (\<lambda>(U, self, text, position, tokens). length text - position)")
     (auto dest: try_patterns_progress)

declare tokenize_loop.simps [simp del]

definition tokenize :: "unicode \<Rightarrow> lexical_analyzer \<Rightarrow> pystr \<Rightarrow> token list" where
  "tokenize U self text =
     (let normalized_text = normalize_text U text;
          (tokens, position) = tokenize_loop U self normalized_text 0 []
      in tokens @ [Token ''EOF'' [] (int position)])"

text \<open>Tables that know nothing beyond ASCII, for running the lexer on ASCII text.\<close>

definition ascii_only :: unicode where
  "ascii_only = \<lparr>uni_isalnum = (\<lambda>c. False), uni_isdecimal = (\<lambda>c. False), uni_lower = (\<lambda>s. s)\<rparr>"

section \<open>syntax\_analyzer.py: ASTNode\<close>

text \<open>
  A node has a type tag, a value (\<^verbatim>\<open>None\<close> or a string in every node the parser
  builds) and its children in order.
\<close>

datatype ast = ASTNode (node_type: string) (node_value: pyval) (children: "ast list")

text \<open>\<^verbatim>\<open>str(v)\<close> and the formatting of \<^verbatim>\<open>v\<close> in an f-string, for a string or None.\<close>

definition py_str :: "pyval \<Rightarrow> pystr" where
  "py_str v = (case v of None \<Rightarrow> u ''None'' | Some s \<Rightarrow> s)"


section \<open>syntax\_analyzer.py: SyntaxAnalyzer\<close>

text \<open>
  The parser's state is the token list and the cursor \<^verbatim>\<open>current_token_index\<close>.  A
  parsing method takes the cursor and returns the node it built with the new cursor,
  or the exception it raised with the cursor as the exception leaves it.  The
  warnings it prints are not modelled.

  The parsing methods call each other recursively, and the interpreter raises
  \<^verbatim>\<open>RecursionError\<close> when a call would exceed its recursion limit.  Every parsing
  method therefore takes \<open>frames\<close>, the number of nested calls of parsing methods the
  limit still allows when the method is called: with none left the call raises,
  otherwise the calls in the body are given one less.  The calls of
  \<^verbatim>\<open>current_token\<close>, \<^verbatim>\<open>consume\<close>, \<^verbatim>\<open>expect\<close>, \<^verbatim>\<open>peek_next_token\<close> and of the node
  constructor return without calling a parsing method and are not counted.
\<close>

definition current_token :: "token list \<Rightarrow> nat \<Rightarrow> token" where
  "current_token tokens current_token_index =
     (if current_token_index < length tokens then tokens ! current_token_index
      else Token ''EOF'' [] (- 1))"

definition peek_next_token :: "token list \<Rightarrow> nat \<Rightarrow> token" where
  "peek_next_token tokens current_token_index =
     (if current_token_index + 1 < length tokens then tokens ! (current_token_index + 1)
      else Token ''EOF'' [] (- 1))"

definition is_delimiter :: "string \<Rightarrow> token \<Rightarrow> bool" where
  "is_delimiter d token = (tok_type token = ''DELIMITER'' \<and> tok_value token = u d)"

definition is_keyword :: "string \<Rightarrow> token \<Rightarrow> bool" where
  "is_keyword k token = (tok_type token = ''KEYWORD'' \<and> tok_value token = u k)"

text \<open>The two SyntaxError messages (243 is o-acute, 233 is e-acute, 39 the apostrophe).\<close>

definition msg_expected :: "string \<Rightarrow> string \<Rightarrow> pystr" where
  "msg_expected token_type found =
     u ''Se esperaba '' @ u token_type @ u '', pero se encontr'' @ [243] @ u '' '' @ u found"

definition msg_expected_in :: pystr where
  "msg_expected_in = u ''Se esperaba '' @ [39] @ u ''in'' @ [39] @ u '' despu'' @ [233]
     @ u ''s del identificador en un bucle for''"

definition expect :: "string \<Rightarrow> token list \<Rightarrow> nat \<Rightarrow> (exn \<times> nat) + (token \<times> nat)" where
  "expect token_type tokens i =
     (let token = current_token tokens i in
      if tok_type token \<noteq> token_type
      then Inl (SyntaxError (msg_expected token_type (tok_type token)), i)
      else Inr (token, i + 1))"

text \<open>
  \<^verbatim>\<open>parse_expression\<close> and the loop over the arguments of a call; the loop runs in the
  frame of \<^verbatim>\<open>parse_expression\<close> and is given what the calls in that body may use.
\<close>

function parse_expression :: "nat \<Rightarrow> token list \<Rightarrow> nat \<Rightarrow> (exn \<times> nat) + (ast \<times> nat)"
  and parse_arguments ::
    "nat \<Rightarrow> token list \<Rightarrow> nat \<Rightarrow> ast list \<Rightarrow> (exn \<times> nat) + (ast list \<times> nat)" where
  "parse_expression frames tokens i =
     (if frames = 0 then Inl (RecursionError, i)
      else
      let token = current_token tokens i in
      if tok_type token = ''INTEGER'' \<or> tok_type token = ''FLOAT''
      then Inr (ASTNode ''LITERAL'' (Some (tok_value token)) [], i + 1)
      else if tok_type token = ''STRING''
      then Inr (ASTNode ''LITERAL'' (Some (tok_value token)) [], i + 1)
      else if tok_type token = ''IDENTIFIER''
      then (if is_delimiter ''('' (current_token tokens (i + 1))
            then (case (if \<not> is_delimiter '')'' (current_token tokens (i + 2))
                        then parse_arguments (frames - 1) tokens (i + 2) []
                        else Inr ([], i + 2)) of
                    Inl e \<Rightarrow> Inl e
                  | Inr (args, j) \<Rightarrow>
                      (case expect ''DELIMITER'' tokens j of
                         Inl e \<Rightarrow> Inl e
                       | Inr (_, k) \<Rightarrow>
                           Inr (ASTNode ''FUNCTION_CALL'' (Some (tok_value token))
                                  [ASTNode ''ARGUMENTS'' None args], k)))
            else Inr (ASTNode ''VARIABLE'' (Some (tok_value token)) [], i + 1))
      else if is_delimiter ''('' token
      then (case parse_expression (frames - 1) tokens (i + 1) of
              Inl e \<Rightarrow> Inl e
            | Inr (expr_node, j) \<Rightarrow>
                (case expect ''DELIMITER'' tokens j of
                   Inl e \<Rightarrow> Inl e
                 | Inr (_, k) \<Rightarrow> Inr (expr_node, k)))
      else Inr (ASTNode ''EXPRESSION'' (Some (tok_value token)) [], i + 1))"
| "parse_arguments frames tokens i args =
     (case parse_expression frames tokens i of
        Inl e \<Rightarrow> Inl e
      | Inr (arg_node, j) \<Rightarrow>
          if is_delimiter '','' (current_token tokens j)
          then parse_arguments frames tokens (j + 1) (args @ [arg_node])
          else Inr (args @ [arg_node], j))"
  by pat_completeness auto

lemma expect_progress: "expect ty tokens j = Inr (t, k) \<Longrightarrow> k = j + 1"
  by (auto simp: expect_def Let_def split: if_splits)

lemma parse_expression_progress_dom:
  "parse_expression_parse_arguments_dom (Inl (frames, tokens, i)) \<Longrightarrow>
     parse_expression frames tokens i = Inr (n, j) \<Longrightarrow> i < j"
  "parse_expression_parse_arguments_dom (Inr (frames, tokens, i, args)) \<Longrightarrow>
     parse_arguments frames tokens i args = Inr (as, j) \<Longrightarrow> i < j"
proof (induct frames tokens i and frames tokens i args arbitrary: n j and as j
       rule: parse_expression_parse_arguments.pinduct)
  case (1 frames tokens i)
  from "1.prems" "1.hyps"(2,3) show ?case
    unfolding parse_expression.psimps [OF "1.hyps"(1)] Let_def
    by (fastforce split: if_splits sum.splits prod.splits dest: expect_progress)
next
  case (2 frames tokens i args)
  from "2.prems" obtain a j1 where a: "parse_expression frames tokens i = Inr (a, j1)"
    unfolding parse_arguments.psimps [OF "2.hyps"(1)]
    by (auto split: sum.splits)
  from "2.hyps"(2) [OF a] have l: "i < j1" .
  show ?case
  proof (cases "is_delimiter '','' (current_token tokens j1)")
    case True
    with "2.prems" a have "parse_arguments frames tokens (j1 + 1) (args @ [a]) = Inr (as, j)"
      unfolding parse_arguments.psimps [OF "2.hyps"(1)] by simp
    from "2.hyps"(3) [OF a refl True this] l show ?thesis by simp
  next
    case False
    with "2.prems" a l show ?thesis
      unfolding parse_arguments.psimps [OF "2.hyps"(1)] by simp
  qed
qed

lemma parse_expression_total: "All parse_expression_parse_arguments_dom"
proof (relation "measures [\<lambda>x. case x of Inl (frames, tokens, i) \<Rightarrow> 2 * frames
                                        | Inr (frames, tokens, i, args) \<Rightarrow> 2 * frames + 1,
                           \<lambda>x. case x of Inl (frames, tokens, i) \<Rightarrow> 0
                                        | Inr (frames, tokens, i, args) \<Rightarrow> length tokens - i]",
       goal_cases)
  case 1
  show ?case by simp
next
  case (2 frames tokens i x)
  then show ?case by simp
next
  case (3 frames tokens i x)
  then show ?case by simp
next
  case (4 frames tokens i args)
  show ?case by simp
next
  case (5 frames tokens i args b x y)
  then have "i < y" using parse_expression_progress_dom(1) by auto
  moreover from 5 have "y < length tokens"
    by (auto simp: current_token_def Token_def is_delimiter_def split: if_splits)
  ultimately show ?case by simp
qed

termination parse_expression
  by (rule parse_expression_total)

lemma parse_expression_progress: "parse_expression frames tokens i = Inr (n, j) \<Longrightarrow> i < j"
  by (rule parse_expression_progress_dom(1) [OF parse_expression_total [THEN spec]])

lemma parse_arguments_progress: "parse_arguments frames tokens i args = Inr (as, j) \<Longrightarrow> i < j"
  by (rule parse_expression_progress_dom(2) [OF parse_expression_total [THEN spec]])

declare parse_expression.simps [simp del] parse_arguments.simps [simp del]

text \<open>The one-token lookahead that recognises an assignment.\<close>

definition assignment_ahead :: "token list \<Rightarrow> nat \<Rightarrow> bool" where
  "assignment_ahead tokens i =
     (tok_type (current_token tokens i) = ''IDENTIFIER''
      \<and> tok_type (peek_next_token tokens i) = ''OPERATOR''
      \<and> tok_value (peek_next_token tokens i) = u ''='')"

definition parse_expression_statement ::
  "nat \<Rightarrow> token list \<Rightarrow> nat \<Rightarrow> (exn \<times> nat) + (ast \<times> nat)" where
  "parse_expression_statement frames tokens i =
     (if frames = 0 then Inl (RecursionError, i)
      else if assignment_ahead tokens i
      then (let var_token = current_token tokens i in
            case parse_expression (frames - 1) tokens (i + 2) of
              Inl e \<Rightarrow> Inl e
            | Inr (expr_node, j) \<Rightarrow>
                Inr (ASTNode ''ASSIGNMENT'' None
                       [ASTNode ''VARIABLE'' (Some (tok_value var_token)) [], expr_node], j))
      else parse_expression (frames - 1) tokens i)"

text \<open>The parameter loop of \<^verbatim>\<open>parse_function_definition\<close>.\<close>

function parse_parameters :: "token list \<Rightarrow> nat \<Rightarrow> ast list \<Rightarrow> ast list \<times> nat" where
  "parse_parameters tokens i params =
     (let param_token = current_token tokens i in
      if tok_type param_token \<noteq> ''IDENTIFIER'' then (params, i)
      else (let params1 = params @ [ASTNode ''PARAMETER'' (Some (tok_value param_token)) []] in
            if is_delimiter '','' (current_token tokens (i + 1))
            then parse_parameters tokens (i + 2) params1
            else (params1, i + 1)))"
  by pat_completeness auto
termination
proof (relation "measure (\<lambda>(tokens, i, params). length tokens - i)", goal_cases)
  case 1
  show ?case by simp
next
  case (2 tokens i params x xa)
  then have "i < length tokens" by (auto simp: current_token_def Token_def split: if_splits)
  then show ?case by simp
qed

declare parse_parameters.simps [simp del]

text \<open>
  \<^verbatim>\<open>if current is the delimiter d: consume()\<close>, and the part of
  \<^verbatim>\<open>parse_function_definition\<close> before the body: the keyword and the name are consumed,
  then the optional parentheses around the parameters.
\<close>

definition consume_if_delimiter :: "string \<Rightarrow> token list \<Rightarrow> nat \<Rightarrow> nat" where
  "consume_if_delimiter d tokens i = (if is_delimiter d (current_token tokens i) then i + 1 else i)"

definition function_header :: "token list \<Rightarrow> nat \<Rightarrow> pystr \<times> ast list \<times> nat" where
  "function_header tokens i =
     (let name_token = current_token tokens (i + 1);
          name_value = tok_value name_token;
          i3 = consume_if_delimiter ''('' tokens (i + 2);
          (params, i4) = (if \<not> is_delimiter '')'' (current_token tokens i3)
                          then parse_parameters tokens i3 []
                          else ([], i3));
          i5 = consume_if_delimiter '')'' tokens i4
      in (name_value, params, i5))"

text \<open>
  The statements.  Every call between these methods takes a frame, so the definition
  terminates by the frames that are left.
\<close>

function parse_statement :: "nat \<Rightarrow> token list \<Rightarrow> nat \<Rightarrow> (exn \<times> nat) + (ast \<times> nat)"
  and parse_function_definition :: "nat \<Rightarrow> token list \<Rightarrow> nat \<Rightarrow> (exn \<times> nat) + (ast \<times> nat)"
  and parse_if_statement :: "nat \<Rightarrow> token list \<Rightarrow> nat \<Rightarrow> (exn \<times> nat) + (ast \<times> nat)"
  and parse_loop :: "nat \<Rightarrow> token list \<Rightarrow> nat \<Rightarrow> (exn \<times> nat) + (ast \<times> nat)"
  and parse_block :: "nat \<Rightarrow> token list \<Rightarrow> nat \<Rightarrow> (exn \<times> nat) + (ast \<times> nat)" where
  "parse_statement frames tokens i =
     (if frames = 0 then Inl (RecursionError, i)
      else
      let token = current_token tokens i in
      if is_keyword ''def'' token then parse_function_definition (frames - 1) tokens i
      else if is_keyword ''if'' token then parse_if_statement (frames - 1) tokens i
      else if is_keyword ''for'' token \<or> is_keyword ''while'' token
      then parse_loop (frames - 1) tokens i
      else parse_expression_statement (frames - 1) tokens i)"
| "parse_function_definition frames tokens i =
     (if frames = 0 then Inl (RecursionError, i)
      else
      case function_header tokens i of
        (name_value, params, i5) \<Rightarrow>
          (case parse_block (frames - 1) tokens i5 of
             Inl e \<Rightarrow> Inl e
           | Inr (body_node, j) \<Rightarrow>
               Inr (ASTNode ''FUNCTION_DEF'' (Some name_value)
                      [ASTNode ''PARAMETERS'' None params, body_node], j)))"
| "parse_if_statement frames tokens i =
     (if frames = 0 then Inl (RecursionError, i)
      else
      case parse_expression (frames - 1) tokens (i + 1) of
        Inl e \<Rightarrow> Inl e
      | Inr (condition_node, j) \<Rightarrow>
          (case parse_block (frames - 1) tokens j of
             Inl e \<Rightarrow> Inl e
           | Inr (then_block, k) \<Rightarrow>
               if is_keyword ''else'' (current_token tokens k)
               then (case parse_block (frames - 1) tokens (k + 1) of
                       Inl e \<Rightarrow> Inl e
                     | Inr (else_block, m) \<Rightarrow>
                         Inr (ASTNode ''IF_STATEMENT'' None
                                [ASTNode ''CONDITION'' None [condition_node],
                                 ASTNode ''THEN'' None [then_block],
                                 ASTNode ''ELSE'' None [else_block]], m))
               else Inr (ASTNode ''IF_STATEMENT'' None
                           [ASTNode ''CONDITION'' None [condition_node],
                            ASTNode ''THEN'' None [then_block]], k)))"
| "parse_loop frames tokens i =
     (if frames = 0 then Inl (RecursionError, i)
      else
      let token = current_token tokens i in
      if tok_value token = u ''for''
      then (case expect ''IDENTIFIER'' tokens (i + 1) of
              Inl e \<Rightarrow> Inl e
            | Inr (var_token, i2) \<Rightarrow>
                if is_keyword ''in'' (current_token tokens i2)
                then (case parse_expression (frames - 1) tokens (i2 + 1) of
                        Inl e \<Rightarrow> Inl e
                      | Inr (iterable_node, j) \<Rightarrow>
                          (case parse_block (frames - 1) tokens j of
                             Inl e \<Rightarrow> Inl e
                           | Inr (body_node, k) \<Rightarrow>
                               Inr (ASTNode ''FOR_LOOP'' None
                                      [ASTNode ''VARIABLE'' (Some (tok_value var_token)) [],
                                       ASTNode ''ITERABLE'' None [iterable_node],
                                       ASTNode ''BODY'' None [body_node]], k)))
                else Inl (SyntaxError msg_expected_in, i2))
      else (case parse_expression (frames - 1) tokens (i + 1) of
              Inl e \<Rightarrow> Inl e
            | Inr (condition_node, j) \<Rightarrow>
                (case parse_block (frames - 1) tokens j of
                   Inl e \<Rightarrow> Inl e
                 | Inr (body_node, k) \<Rightarrow>
                     Inr (ASTNode ''WHILE_LOOP'' None
                            [ASTNode ''CONDITION'' None [condition_node],
                             ASTNode ''BODY'' None [body_node]], k))))"
| "parse_block frames tokens i =
     (if frames = 0 then Inl (RecursionError, i)
      else
      let i1 = consume_if_delimiter '':'' tokens i in
      if tok_type (current_token tokens i1) \<noteq> ''EOF''
      then (case parse_statement (frames - 1) tokens i1 of
              Inl e \<Rightarrow> Inl e
            | Inr (statement, j) \<Rightarrow> Inr (ASTNode ''BLOCK'' None [statement], j))
      else Inr (ASTNode ''BLOCK'' None [], i1))"
  by pat_completeness auto
termination
  by (relation "measure (\<lambda>x. case x of
           Inl (Inl (frames, tokens, i)) \<Rightarrow> frames
         | Inl (Inr (frames, tokens, i)) \<Rightarrow> frames
         | Inr (Inl (frames, tokens, i)) \<Rightarrow> frames
         | Inr (Inr (Inl (frames, tokens, i))) \<Rightarrow> frames
         | Inr (Inr (Inr (frames, tokens, i))) \<Rightarrow> frames)") simp_all

declare parse_statement.simps [simp del] parse_function_definition.simps [simp del]
  parse_if_statement.simps [simp del] parse_loop.simps [simp del] parse_block.simps [simp del]


lemma parse_expression_statement_progress:
  "parse_expression_statement frames tokens i = Inr (n, j) \<Longrightarrow> i < j"
  by (auto simp: parse_expression_statement_def Let_def split: if_splits sum.splits
        dest: parse_expression_progress)

lemma parse_parameters_progress: "parse_parameters tokens i params = (ps, j) \<Longrightarrow> i \<le> j"
proof (induction tokens i params arbitrary: ps j rule: parse_parameters.induct)
  case (1 tokens i params)
  show ?case
  proof (cases "tok_type (current_token tokens i) \<noteq> ''IDENTIFIER''")
    case True
    with "1.prems" show ?thesis by (simp add: parse_parameters.simps [of tokens i] Let_def)
  next
    case False
    note id = this
    show ?thesis
    proof (cases "is_delimiter '','' (current_token tokens (i + 1))")
      case True
      with "1.prems" id have "parse_parameters tokens (i + 2)
          (params @ [ASTNode ''PARAMETER'' (Some (tok_value (current_token tokens i))) []]) = (ps, j)"
        by (simp add: parse_parameters.simps [of tokens i] Let_def)
      from "1.IH" [OF refl id refl True this] show ?thesis by simp
    next
      case False
      with "1.prems" id show ?thesis by (simp add: parse_parameters.simps [of tokens i] Let_def)
    qed
  qed
qed

lemma consume_if_delimiter_le: "i \<le> consume_if_delimiter d tokens i"
  by (simp add: consume_if_delimiter_def)

lemma function_header_progress:
  assumes "function_header tokens i = (name_value, params, i5)"
  shows "i + 2 \<le> i5"
proof -
  define i3 where "i3 = consume_if_delimiter ''('' tokens (i + 2)"
  define pr where "pr = (if \<not> is_delimiter '')'' (current_token tokens i3)
                          then parse_parameters tokens i3 [] else ([], i3))"
  have 1: "i + 2 \<le> i3" unfolding i3_def by (rule consume_if_delimiter_le)
  have 2: "i3 \<le> snd pr"
    unfolding pr_def using parse_parameters_progress [of tokens i3 "[]"]
    by (cases "parse_parameters tokens i3 []") auto
  have 3: "snd pr \<le> consume_if_delimiter '')'' tokens (snd pr)" by (rule consume_if_delimiter_le)
  from assms have "i5 = consume_if_delimiter '')'' tokens (snd pr)"
    unfolding function_header_def Let_def case_prod_unfold i3_def pr_def by auto
  with 1 2 3 show ?thesis by linarith
qed

lemma parse_statement_progress_all:
  "parse_statement frames tokens i = Inr (n, j) \<Longrightarrow> i < j"
  "parse_function_definition frames tokens i = Inr (n, j) \<Longrightarrow> i < j"
  "parse_if_statement frames tokens i = Inr (n, j) \<Longrightarrow> i < j"
  "parse_loop frames tokens i = Inr (n, j) \<Longrightarrow> i < j"
  "parse_block frames tokens i = Inr (n, j) \<Longrightarrow> i \<le> j"
proof (induct frames tokens i and frames tokens i and frames tokens i and frames tokens i
         and frames tokens i
       arbitrary: n j and n j and n j and n j and n j
       rule: parse_statement_parse_function_definition_parse_if_statement_parse_loop_parse_block.induct)
  case (1 frames tokens i)
  from "1.prems" "1.hyps" show ?case
    unfolding parse_statement.simps [of frames tokens i] Let_def
    by (auto split: if_splits dest: parse_expression_statement_progress)
next
  case (2 frames tokens i)
  from "2.prems" have f: "frames \<noteq> 0"
    unfolding parse_function_definition.simps [of frames tokens i] by (auto split: if_splits)
  obtain name_value params i5 where h: "function_header tokens i = (name_value, params, i5)"
    by (cases "function_header tokens i") auto
  from "2.prems" f h obtain b where b: "parse_block (frames - 1) tokens i5 = Inr (b, j)"
    unfolding parse_function_definition.simps [of frames tokens i]
    by (auto split: sum.splits)
  from "2.hyps" [OF f h [symmetric] refl b] function_header_progress [OF h] show ?case
    by simp
next
  case (3 frames tokens i)
  from "3.prems" have f: "frames \<noteq> 0"
    unfolding parse_if_statement.simps [of frames tokens i] by (auto split: if_splits)
  from "3.prems" f obtain c j1 where c: "parse_expression (frames - 1) tokens (i + 1) = Inr (c, j1)"
    unfolding parse_if_statement.simps [of frames tokens i] by (auto split: sum.splits)
  from "3.prems" f c obtain tb k where tb: "parse_block (frames - 1) tokens j1 = Inr (tb, k)"
    unfolding parse_if_statement.simps [of frames tokens i] by (auto split: sum.splits)
  from parse_expression_progress [OF c] have l1: "i + 1 < j1" .
  from "3.hyps"(1) [OF f c refl tb] have l2: "j1 \<le> k" .
  show ?case
  proof (cases "is_keyword ''else'' (current_token tokens k)")
    case True
    with "3.prems" f c tb obtain eb where eb: "parse_block (frames - 1) tokens (k + 1) = Inr (eb, j)"
      unfolding parse_if_statement.simps [of frames tokens i] by (auto split: sum.splits)
    from "3.hyps"(2) [OF f c refl tb refl True eb] l1 l2 show ?thesis by simp
  next
    case False
    with "3.prems" f c tb l1 l2 show ?thesis
      unfolding parse_if_statement.simps [of frames tokens i] by auto
  qed
next
  case (4 frames tokens i)
  from "4.prems" have f: "frames \<noteq> 0"
    unfolding parse_loop.simps [of frames tokens i] by (auto split: if_splits)
  show ?case
  proof (cases "tok_value (current_token tokens i) = u ''for''")
    case True
    with "4.prems" f obtain vt i2 where e: "expect ''IDENTIFIER'' tokens (i + 1) = Inr (vt, i2)"
      unfolding parse_loop.simps [of frames tokens i] Let_def by (auto split: sum.splits)
    from "4.prems" f True e have kw: "is_keyword ''in'' (current_token tokens i2)"
      unfolding parse_loop.simps [of frames tokens i] Let_def by (auto split: sum.splits if_splits)
    from "4.prems" f True e kw obtain it j1
      where it: "parse_expression (frames - 1) tokens (i2 + 1) = Inr (it, j1)"
      unfolding parse_loop.simps [of frames tokens i] Let_def by (auto split: sum.splits)
    from "4.prems" f True e kw it obtain b where b: "parse_block (frames - 1) tokens j1 = Inr (b, j)"
      unfolding parse_loop.simps [of frames tokens i] Let_def by (auto split: sum.splits)
    from "4.hyps"(1) [OF f refl True e refl kw it refl b] parse_expression_progress [OF it]
      expect_progress [OF e]
    show ?thesis by simp
  next
    case False
    with "4.prems" f obtain c j1 where c: "parse_expression (frames - 1) tokens (i + 1) = Inr (c, j1)"
      unfolding parse_loop.simps [of frames tokens i] Let_def by (auto split: sum.splits)
    from "4.prems" f False c obtain b where b: "parse_block (frames - 1) tokens j1 = Inr (b, j)"
      unfolding parse_loop.simps [of frames tokens i] Let_def by (auto split: sum.splits)
    from "4.hyps"(2) [OF f refl False c refl b] parse_expression_progress [OF c]
    show ?thesis by simp
  qed
next
  case (5 frames tokens i)
  from "5.prems" have f: "frames \<noteq> 0"
    unfolding parse_block.simps [of frames tokens i] by (auto split: if_splits)
  let ?i1 = "consume_if_delimiter '':'' tokens i"
  show ?case
  proof (cases "tok_type (current_token tokens ?i1) \<noteq> ''EOF''")
    case True
    with "5.prems" f obtain st where st: "parse_statement (frames - 1) tokens ?i1 = Inr (st, j)"
      unfolding parse_block.simps [of frames tokens i] Let_def by (auto split: sum.splits)
    from "5.hyps" [OF f refl True st] consume_if_delimiter_le [of i "'':''" tokens] show ?thesis by simp
  next
    case False
    with "5.prems" f show ?thesis
      unfolding parse_block.simps [of frames tokens i] Let_def
      using consume_if_delimiter_le [of i "'':''" tokens] by auto
  qed
qed

lemmas parse_statement_progress = parse_statement_progress_all(1)
lemmas parse_block_progress = parse_statement_progress_all(5)

text \<open>
  \<^verbatim>\<open>parse_program\<close> with its loop, and \<^verbatim>\<open>parse\<close>, which catches every exception;
  \<open>frames\<close> is what the recursion limit allows when \<^verbatim>\<open>parse\<close> calls \<^verbatim>\<open>parse_program\<close>.
\<close>

function parse_program_loop ::
  "nat \<Rightarrow> token list \<Rightarrow> nat \<Rightarrow> ast list \<Rightarrow> (exn \<times> nat) + (ast \<times> nat)" where
  "parse_program_loop frames tokens i statements =
     (if tok_type (current_token tokens i) \<noteq> ''EOF''
      then (case parse_statement frames tokens i of
              Inl e \<Rightarrow> Inl e
            | Inr (statement, j) \<Rightarrow> parse_program_loop frames tokens j (statements @ [statement]))
      else Inr (ASTNode ''PROGRAM'' None statements, i))"
  by pat_completeness auto
termination
proof (relation "measure (\<lambda>(frames, tokens, i, statements). length tokens - i)", goal_cases)
  case 1
  show ?case by simp
next
  case (2 frames tokens i statements b x y)
  then have "i < length tokens" by (auto simp: current_token_def Token_def split: if_splits)
  moreover from 2 parse_statement_progress [of frames tokens i x y] have "i < y" by simp
  ultimately show ?case by simp
qed

declare parse_program_loop.simps [simp del]

definition parse_program :: "nat \<Rightarrow> token list \<Rightarrow> (exn \<times> nat) + (ast \<times> nat)" where
  "parse_program frames tokens =
     (if frames = 0 then Inl (RecursionError, 0)
      else parse_program_loop (frames - 1) tokens 0 [])"

definition parse :: "nat \<Rightarrow> token list \<Rightarrow> ast option" where
  "parse frames tokens =
     (case parse_program frames tokens of Inr (tree, _) \<Rightarrow> Some tree | Inl _ \<Rightarrow> None)"

text \<open>Every BLOCK node of a tree has at most one child.\<close>

fun blocks_single :: "ast \<Rightarrow> bool" where
  "blocks_single (ASTNode t v cs) =
     ((t = ''BLOCK'' \<longrightarrow> length cs \<le> 1) \<and> (\<forall>c \<in> set cs. blocks_single c))"

text \<open>The tokens of \<^verbatim>\<open>if x: a b\<close>: two statements after the colon.\<close>

definition two_statements_after_colon :: "token list" where
  "two_statements_after_colon =
     [Token ''KEYWORD'' (u ''if'') 0, Token ''IDENTIFIER'' (u ''x'') 3, Token ''DELIMITER'' (u '':'') 4,
      Token ''IDENTIFIER'' (u ''a'') 6, Token ''IDENTIFIER'' (u ''b'') 8, Token ''EOF'' [] 9]"

text \<open>
  The places where the parser's own code raises, seen from the cursor k where it
  stops with the exception e: an expect of type DELIMITER that fails at k after an
  opening parenthesis, the expect of the loop variable that fails right after the
  keyword for, and the check for the keyword in after the loop variable.
\<close>

definition raise_site :: "token list \<Rightarrow> nat \<Rightarrow> exn \<Rightarrow> bool" where
  "raise_site tokens k e =
     ((\<exists>i<k. is_delimiter ''('' (current_token tokens i))
        \<and> expect ''DELIMITER'' tokens k = Inl (e, k)
      \<or> 1 \<le> k \<and> is_keyword ''for'' (current_token tokens (k - 1))
        \<and> expect ''IDENTIFIER'' tokens k = Inl (e, k)
      \<or> 2 \<le> k \<and> is_keyword ''for'' (current_token tokens (k - 2))
        \<and> tok_type (current_token tokens (k - 1)) = ''IDENTIFIER''
        \<and> \<not> is_keyword ''in'' (current_token tokens k)
        \<and> e = SyntaxError msg_expected_in)"

text \<open>The tokens of \<^verbatim>\<open>for x y\<close>: a for loop without the keyword in.\<close>

definition for_without_in :: "token list" where
  "for_without_in =
     [Token ''KEYWORD'' (u ''for'') 0, Token ''IDENTIFIER'' (u ''x'') 4,
      Token ''IDENTIFIER'' (u ''y'') 6, Token ''EOF'' [] 7]"


section \<open>What normalisation leaves for the lexer\<close>

text \<open>
  The characters of the operator, delimiter and string patterns that
  \<^verbatim>\<open>normalize_text\<close> deletes, the operator words of the special tokens, and the
  property of a token that is scanned from a text without such characters.
\<close>

definition removed_character :: "nat \<Rightarrow> bool" where
  "removed_character c = (c \<in> set (u ''+-*/=<>()[]{}'') \<or> c = 34 \<or> c = 39)"

definition operator_words :: "pystr list" where
  "operator_words = [u ''m'' @ [225] @ u ''s'', u ''mas'', u ''menos'', u ''por'',
                      u ''dividido'', u ''igual'', u ''mayor'', u ''menor'']"

definition from_normalized :: "token \<Rightarrow> bool" where
  "from_normalized t =
     (tok_type t \<noteq> ''STRING''
      \<and> (tok_type t = ''OPERATOR'' \<longrightarrow> tok_value t = u ''!'' \<or> tok_value t \<in> set operator_words)
      \<and> (tok_type t = ''DELIMITER'' \<longrightarrow> tok_value t = u '','' \<or> tok_value t = u '';'' \<or> tok_value t = u '':''))"


section \<open>semantic\_analyzer.py: SemanticAnalyzer\<close>

record semantic_analyzer =
  symbol_table :: symbol_table
  errors :: "pystr list"

definition SemanticAnalyzer :: semantic_analyzer where
  "SemanticAnalyzer = \<lparr>symbol_table = SymbolTable, errors = []\<rparr>"

text \<open>The four error messages (39 is the apostrophe, 243 is o-acute).\<close>

definition msg_already_defined :: "pyval \<Rightarrow> pystr" where
  "msg_already_defined name = u ''Funci'' @ [243] @ u ''n '' @ [39] @ py_str name @ [39] @ u '' ya definida''"

definition msg_function_undefined :: "pyval \<Rightarrow> pystr" where
  "msg_function_undefined name = u ''Funci'' @ [243] @ u ''n '' @ [39] @ py_str name @ [39] @ u '' no definida''"

definition msg_not_a_function :: "pyval \<Rightarrow> pystr" where
  "msg_not_a_function name = [39] @ py_str name @ [39] @ u '' no es una funci'' @ [243] @ u ''n''"

definition msg_variable_undefined :: "pyval \<Rightarrow> pystr" where
  "msg_variable_undefined name = u ''Variable '' @ [39] @ py_str name @ [39] @ u '' no definida''"

definition append_error :: "pystr \<Rightarrow> semantic_analyzer \<Rightarrow> semantic_analyzer" where
  "append_error msg self = self\<lparr>errors := errors self @ [msg]\<rparr>"

text \<open>
  A method that mutates the analyzer and may raise returns the exception, if any,
  together with the analyzer as the mutation left it.
\<close>

definition self_add_symbol :: "pyval \<Rightarrow> string \<Rightarrow> semantic_analyzer \<Rightarrow> exn option \<times> semantic_analyzer" where
  "self_add_symbol name symbol_type self =
     (case add_symbol name symbol_type (symbol_table self) of
        Inl e \<Rightarrow> (Some e, self)
      | Inr (_, tab) \<Rightarrow> (None, self\<lparr>symbol_table := tab\<rparr>))"

text \<open>The loop over \<^verbatim>\<open>params_node.children\<close> in \<^verbatim>\<open>_analyze_function_def\<close>.\<close>

fun add_parameters :: "ast list \<Rightarrow> semantic_analyzer \<Rightarrow> exn option \<times> semantic_analyzer" where
  "add_parameters [] self = (None, self)"
| "add_parameters (param # params) self =
     (case self_add_symbol (node_value param) ''PARAMETER'' self of
        (Some e, self1) \<Rightarrow> (Some e, self1)
      | (None, self1) \<Rightarrow> add_parameters params self1)"


text \<open>
  \<^verbatim>\<open>_analyze_node\<close> with the handler of each node type in its branch, and the loop
  \<^verbatim>\<open>for child in ...: self._analyze_node(child)\<close>.  \<^verbatim>\<open>node.children[i]\<close> is a match on
  the list of children, with IndexError where the list is too short.

  The walk is recursive, and the interpreter raises \<^verbatim>\<open>RecursionError\<close> when a call
  would exceed its recursion limit.  \<open>frames\<close> is the number of nested calls of the
  analysing methods the limit still allows when \<^verbatim>\<open>_analyze_node\<close> is called: the call
  takes one, the handler it dispatches to takes a second one, and the calls of
  \<^verbatim>\<open>_analyze_node\<close> in a handler are given what is left.  A node type without a
  handler is walked in the frame of \<^verbatim>\<open>_analyze_node\<close> itself.  The calls of the symbol
  table's methods return without calling back and are not counted.
\<close>

definition has_handler :: "string \<Rightarrow> bool" where
  "has_handler t =
     (t \<in> set [''PROGRAM'', ''FUNCTION_DEF'', ''BLOCK'', ''IF_STATEMENT'', ''FOR_LOOP'',
                ''WHILE_LOOP'', ''ASSIGNMENT'', ''FUNCTION_CALL'', ''VARIABLE''])"

fun analyze_node :: "nat \<Rightarrow> ast \<Rightarrow> semantic_analyzer \<Rightarrow> exn option \<times> semantic_analyzer"
  and analyze_each :: "nat \<Rightarrow> ast list \<Rightarrow> semantic_analyzer \<Rightarrow> exn option \<times> semantic_analyzer" where
  "analyze_node frames (ASTNode t v cs) self =
     (if frames = 0 then (Some RecursionError, self)
      else if has_handler t \<and> frames = 1 then (Some RecursionError, self)
      else if t = ''PROGRAM'' then analyze_each (frames - 2) cs self
      else if t = ''FUNCTION_DEF'' then
        (case lookup v (symbol_table self) of
           Inl e \<Rightarrow> (Some e, self)
         | Inr found \<Rightarrow>
             let self1 = (if found \<noteq> None then append_error (msg_already_defined v) self else self) in
             (case self_add_symbol v ''FUNCTION'' self1 of
                (Some e, self2) \<Rightarrow> (Some e, self2)
              | (None, self2) \<Rightarrow>
                  let self3 = self2\<lparr>symbol_table := enter_scope v (symbol_table self2)\<rparr> in
                  (case cs of
                     [] \<Rightarrow> (Some IndexError, self3)
                   | params_node # rest \<Rightarrow>
                       (case add_parameters (children params_node) self3 of
                          (Some e, self4) \<Rightarrow> (Some e, self4)
                        | (None, self4) \<Rightarrow>
                            (case rest of
                               [] \<Rightarrow> (Some IndexError, self4)
                             | body_node # _ \<Rightarrow>
                                 (case analyze_node (frames - 2) body_node self4 of
                                    (Some e, self5) \<Rightarrow> (Some e, self5)
                                  | (None, self5) \<Rightarrow>
                                      (None, self5\<lparr>symbol_table := exit_scope (symbol_table self5)\<rparr>)))))))
      else if t = ''BLOCK'' then analyze_each (frames - 2) cs self
      else if t = ''IF_STATEMENT'' then
        (case cs of
           [] \<Rightarrow> (Some IndexError, self)
         | condition_node # rest \<Rightarrow>
             (case analyze_node (frames - 2) condition_node self of
                (Some e, self1) \<Rightarrow> (Some e, self1)
              | (None, self1) \<Rightarrow>
                  (case rest of
                     [] \<Rightarrow> (Some IndexError, self1)
                   | then_node # rest2 \<Rightarrow>
                       (case analyze_node (frames - 2) then_node self1 of
                          (Some e, self2) \<Rightarrow> (Some e, self2)
                        | (None, self2) \<Rightarrow>
                            (case rest2 of
                               [] \<Rightarrow> (None, self2)
                             | else_node # _ \<Rightarrow> analyze_node (frames - 2) else_node self2)))))
      else if t = ''FOR_LOOP'' then
        (case cs of
           [] \<Rightarrow> (Some IndexError, self)
         | var_node # rest \<Rightarrow>
             (case self_add_symbol (node_value var_node) ''VARIABLE'' self of
                (Some e, self1) \<Rightarrow> (Some e, self1)
              | (None, self1) \<Rightarrow>
                  (case rest of
                     [] \<Rightarrow> (Some IndexError, self1)
                   | iterable_node # rest2 \<Rightarrow>
                       (case analyze_node (frames - 2) iterable_node self1 of
                          (Some e, self2) \<Rightarrow> (Some e, self2)
                        | (None, self2) \<Rightarrow>
                            (case rest2 of
                               [] \<Rightarrow> (Some IndexError, self2)
                             | body_node # _ \<Rightarrow> analyze_node (frames - 2) body_node self2)))))
      else if t = ''WHILE_LOOP'' then
        (case cs of
           [] \<Rightarrow> (Some IndexError, self)
         | condition_node # rest \<Rightarrow>
             (case analyze_node (frames - 2) condition_node self of
                (Some e, self1) \<Rightarrow> (Some e, self1)
              | (None, self1) \<Rightarrow>
                  (case rest of
                     [] \<Rightarrow> (Some IndexError, self1)
                   | body_node # _ \<Rightarrow> analyze_node (frames - 2) body_node self1)))
      else if t = ''ASSIGNMENT'' then
        (case cs of
           [] \<Rightarrow> (Some IndexError, self)
         | var_node # rest \<Rightarrow>
             (case lookup (node_value var_node) (symbol_table self) of
                Inl e \<Rightarrow> (Some e, self)
              | Inr found \<Rightarrow>
                  (case (if found = None then self_add_symbol (node_value var_node) ''VARIABLE'' self
                         else (None, self)) of
                     (Some e, self1) \<Rightarrow> (Some e, self1)
                   | (None, self1) \<Rightarrow>
                       (case rest of
                          [] \<Rightarrow> (Some IndexError, self1)
                        | expr_node # _ \<Rightarrow> analyze_node (frames - 2) expr_node self1))))
      else if t = ''FUNCTION_CALL'' then
        (case lookup v (symbol_table self) of
           Inl e \<Rightarrow> (Some e, self)
         | Inr function_symbol \<Rightarrow>
             let self1 = (case function_symbol of
                            None \<Rightarrow> append_error (msg_function_undefined v) self
                          | Some sy \<Rightarrow>
                              if sym_type sy \<noteq> ''FUNCTION'' then append_error (msg_not_a_function v) self
                              else self) in
             (case cs of
                [] \<Rightarrow> (Some IndexError, self1)
              | ASTNode _ _ args # _ \<Rightarrow> analyze_each (frames - 2) args self1))
      else if t = ''VARIABLE'' then
        (case lookup v (symbol_table self) of
           Inl e \<Rightarrow> (Some e, self)
         | Inr found \<Rightarrow>
             (None, if found = None then append_error (msg_variable_undefined v) self else self))
      else analyze_each (frames - 1) cs self)"
| "analyze_each frames [] self = (None, self)"
| "analyze_each frames (child # rest) self =
     (case analyze_node frames child self of
        (Some e, self1) \<Rightarrow> (Some e, self1)
      | (None, self1) \<Rightarrow> analyze_each frames rest self1)"

text \<open>
  \<^verbatim>\<open>analyze\<close>: the error list is emptied, the tree is walked, and any exception is
  caught and turned into the result False; \<open>frames\<close> is what the recursion limit allows
  when \<^verbatim>\<open>analyze\<close> calls \<^verbatim>\<open>_analyze_node\<close>.
\<close>

definition analyze :: "nat \<Rightarrow> ast \<Rightarrow> semantic_analyzer \<Rightarrow> bool \<times> semantic_analyzer" where
  "analyze frames tree self =
     (case analyze_node frames tree (self\<lparr>errors := []\<rparr>) of
        (None, self1) \<Rightarrow> (if errors self1 = [] then (True, self1) else (False, self1))
      | (Some e, self1) \<Rightarrow> (False, self1))"
section \<open>code\_generator.py: CodeGenerator\<close>


text \<open>
  The generator returns text or, through a VARIABLE node without a value, None.  The
  exceptions of the walk are the IndexError of \<^verbatim>\<open>node.children[i]\<close>, the TypeError of
  adding or joining None, the AttributeError of calling a string method on None, each
  with the text \<^verbatim>\<open>str(e)\<close> gives in CPython, and the RecursionError of the
  interpreter.  The text of a RecursionError is chosen by the interpreter (CPython
  appends to "maximum recursion depth exceeded" a clause that depends on the call that
  exceeded the limit), so it is the parameter \<open>recursion_message\<close>.  \<open>str_of_nat\<close> is
  \<^verbatim>\<open>str\<close> of a natural number.
\<close>

fun str_of_nat :: "nat \<Rightarrow> pystr" where
  "str_of_nat n = (if n < 10 then [48 + n] else str_of_nat (n div 10) @ [48 + n mod 10])"

declare str_of_nat.simps [simp del]

definition msg_none_plus_str :: pystr where
  "msg_none_plus_str = u ''unsupported operand type(s) for +: '' @ [39] @ u ''NoneType'' @ [39]
     @ u '' and '' @ [39] @ u ''str'' @ [39]"

definition msg_no_attribute :: "string \<Rightarrow> pystr" where
  "msg_no_attribute a = [39] @ u ''NoneType'' @ [39] @ u '' object has no attribute '' @ [39] @ u a @ [39]"

definition msg_join :: "nat \<Rightarrow> pystr" where
  "msg_join n = u ''sequence item '' @ str_of_nat n @ u '': expected str instance, NoneType found''"

definition exn_str :: "pystr \<Rightarrow> exn \<Rightarrow> pystr" where
  "exn_str recursion_message e =
     (case e of
        SyntaxError m \<Rightarrow> m
      | IndexError \<Rightarrow> u ''list index out of range''
      | KeyError k \<Rightarrow> (case k of None \<Rightarrow> u ''None'' | Some s \<Rightarrow> [39] @ s @ [39])
      | TypeError m \<Rightarrow> m
      | AttributeError m \<Rightarrow> m
      | RecursionError \<Rightarrow> recursion_message)"

text \<open>\<^verbatim>\<open>str.rstrip\<close>, \<^verbatim>\<open>", ".join\<close> (which raises at the first item that is None) and \<^verbatim>\<open>self._indent()\<close>.\<close>

definition str_rstrip :: "pystr \<Rightarrow> pystr" where
  "str_rstrip s = rev (dropWhile isspace (rev s))"

fun first_none :: "pyval list \<Rightarrow> nat \<Rightarrow> nat option" where
  "first_none [] n = None"
| "first_none (x # xs) n = (if x = None then Some n else first_none xs (Suc n))"

fun join_strs :: "pystr \<Rightarrow> pystr list \<Rightarrow> pystr" where
  "join_strs sep [] = []"
| "join_strs sep [x] = x"
| "join_strs sep (x # y # ys) = x @ sep @ join_strs sep (y # ys)"

definition py_join :: "pystr \<Rightarrow> pyval list \<Rightarrow> exn + pystr" where
  "py_join sep items =
     (case first_none items 0 of
        Some n \<Rightarrow> Inl (TypeError (msg_join n))
      | None \<Rightarrow> Inr (join_strs sep (map the items)))"

definition indent :: "nat \<Rightarrow> pystr" where
  "indent indent_level = replicate (indent_level * 4) 32"

text \<open>
  \<^verbatim>\<open>if not body_code.strip(): body_code = self._indent() + "pass"\<close>, which raises
  when the body code is None.
\<close>

definition body_or_pass :: "pyval \<Rightarrow> pystr \<Rightarrow> exn + pystr" where
  "body_or_pass body_code pass_code =
     (case body_code of
        None \<Rightarrow> Inl (AttributeError (msg_no_attribute ''strip''))
      | Some s \<Rightarrow> if str_strip s = [] then Inr pass_code else Inr s)"

text \<open>
  The handlers.  A handler calls \<^verbatim>\<open>self._generate_node\<close> on children of its node; in
  the model it is given that method, with the frames that are left, as \<open>gen\<close>.  The
  shared counter \<^verbatim>\<open>indent_level\<close> is raised before a body is generated and lowered
  after it, so on every normal return it has the value it had at the call: it is
  passed as an argument.  (After an exception the counter of the object stays raised;
  this affects later calls only through the level they start from.)
  \<^verbatim>\<open>node.children[i]\<close> is a match on the list of children, with IndexError where the
  list is too short.
\<close>

type_synonym generator = "ast \<Rightarrow> nat \<Rightarrow> exn + pyval"

fun generate_program_loop :: "generator \<Rightarrow> ast list \<Rightarrow> nat \<Rightarrow> pystr \<Rightarrow> exn + pystr" where
  "generate_program_loop gen [] lvl code = Inr code"
| "generate_program_loop gen (child # rest) lvl code =
     (case gen child lvl of
        Inl e \<Rightarrow> Inl e
      | Inr None \<Rightarrow> Inl (TypeError msg_none_plus_str)
      | Inr (Some s) \<Rightarrow> generate_program_loop gen rest lvl (code @ s @ [10, 10]))"

definition generate_program :: "generator \<Rightarrow> ast \<Rightarrow> nat \<Rightarrow> exn + pyval" where
  "generate_program gen node lvl =
     (case generate_program_loop gen (children node) lvl
             (u ''# C'' @ [243] @ u ''digo generado autom'' @ [225] @ u ''ticamente'' @ [10, 10]) of
        Inl e \<Rightarrow> Inl e
      | Inr code \<Rightarrow> Inr (Some (str_rstrip code)))"

definition generate_function_def :: "generator \<Rightarrow> ast \<Rightarrow> nat \<Rightarrow> exn + pyval" where
  "generate_function_def gen node lvl =
     (case children node of
        [] \<Rightarrow> Inl IndexError
      | params_node # rest \<Rightarrow>
          (case gen params_node lvl of
             Inl e \<Rightarrow> Inl e
           | Inr params_code \<Rightarrow>
               (case rest of
                  [] \<Rightarrow> Inl IndexError
                | body_node # _ \<Rightarrow>
                    (case gen body_node (lvl + 1) of
                       Inl e \<Rightarrow> Inl e
                     | Inr body_code \<Rightarrow>
                         (case body_or_pass body_code (indent lvl @ u ''pass'') of
                            Inl e \<Rightarrow> Inl e
                          | Inr body \<Rightarrow>
                              Inr (Some (u ''def '' @ py_str (node_value node) @ u ''(''
                                         @ py_str params_code @ u ''):'' @ [10] @ body)))))))"

fun generate_block_loop :: "generator \<Rightarrow> ast list \<Rightarrow> nat \<Rightarrow> pystr \<Rightarrow> exn + pystr" where
  "generate_block_loop gen [] lvl code = Inr code"
| "generate_block_loop gen (child # rest) lvl code =
     (case gen child lvl of
        Inl e \<Rightarrow> Inl e
      | Inr child_code \<Rightarrow>
          generate_block_loop gen rest lvl
            (if child_code \<noteq> None \<and> child_code \<noteq> Some []
             then code @ indent lvl @ the child_code @ [10] else code))"

definition generate_block :: "generator \<Rightarrow> ast \<Rightarrow> nat \<Rightarrow> exn + pyval" where
  "generate_block gen node lvl =
     (case generate_block_loop gen (children node) lvl [] of
        Inl e \<Rightarrow> Inl e
      | Inr code \<Rightarrow> Inr (Some code))"

definition generate_if_statement :: "generator \<Rightarrow> ast \<Rightarrow> nat \<Rightarrow> exn + pyval" where
  "generate_if_statement gen node lvl =
     (case children node of
        [] \<Rightarrow> Inl IndexError
      | condition_node # rest \<Rightarrow>
          (case gen condition_node lvl of
             Inl e \<Rightarrow> Inl e
           | Inr condition_code \<Rightarrow>
               (case rest of
                  [] \<Rightarrow> Inl IndexError
                | then_node # rest2 \<Rightarrow>
                    (case gen then_node (lvl + 1) of
                       Inl e \<Rightarrow> Inl e
                     | Inr then_code \<Rightarrow>
                         (case body_or_pass then_code (indent lvl @ u ''pass'' @ [10]) of
                            Inl e \<Rightarrow> Inl e
                          | Inr then_text \<Rightarrow>
                              (let code = u ''if '' @ py_str condition_code @ u '':'' @ [10] @ then_text in
                               case rest2 of
                                 [] \<Rightarrow> Inr (Some code)
                               | else_node # _ \<Rightarrow>
                                   (case gen else_node (lvl + 1) of
                                      Inl e \<Rightarrow> Inl e
                                    | Inr else_code \<Rightarrow>
                                        (case body_or_pass else_code (indent lvl @ u ''pass'' @ [10]) of
                                           Inl e \<Rightarrow> Inl e
                                         | Inr else_text \<Rightarrow>
                                             Inr (Some (code @ u ''else:'' @ [10] @ else_text))))))))))"

definition generate_for_loop :: "generator \<Rightarrow> ast \<Rightarrow> nat \<Rightarrow> exn + pyval" where
  "generate_for_loop gen node lvl =
     (case children node of
        [] \<Rightarrow> Inl IndexError
      | var_node # rest \<Rightarrow>
          (case gen var_node lvl of
             Inl e \<Rightarrow> Inl e
           | Inr var_code \<Rightarrow>
               (case rest of
                  [] \<Rightarrow> Inl IndexError
                | iterable_node # rest2 \<Rightarrow>
                    (case gen iterable_node lvl of
                       Inl e \<Rightarrow> Inl e
                     | Inr iterable_code \<Rightarrow>
                         (case rest2 of
                            [] \<Rightarrow> Inl IndexError
                          | body_node # _ \<Rightarrow>
                              (case gen body_node (lvl + 1) of
                                 Inl e \<Rightarrow> Inl e
                               | Inr body_code \<Rightarrow>
                                   (case body_or_pass body_code (indent lvl @ u ''pass'' @ [10]) of
                                      Inl e \<Rightarrow> Inl e
                                    | Inr body \<Rightarrow>
                                        Inr (Some (u ''for '' @ py_str var_code @ u '' in ''
                                                   @ py_str iterable_code @ u '':'' @ [10] @ body)))))))))"

definition generate_while_loop :: "generator \<Rightarrow> ast \<Rightarrow> nat \<Rightarrow> exn + pyval" where
  "generate_while_loop gen node lvl =
     (case children node of
        [] \<Rightarrow> Inl IndexError
      | condition_node # rest \<Rightarrow>
          (case gen condition_node lvl of
             Inl e \<Rightarrow> Inl e
           | Inr condition_code \<Rightarrow>
               (case rest of
                  [] \<Rightarrow> Inl IndexError
                | body_node # _ \<Rightarrow>
                    (case gen body_node (lvl + 1) of
                       Inl e \<Rightarrow> Inl e
                     | Inr body_code \<Rightarrow>
                         (case body_or_pass body_code (indent lvl @ u ''pass'' @ [10]) of
                            Inl e \<Rightarrow> Inl e
                          | Inr body \<Rightarrow>
                              Inr (Some (u ''while '' @ py_str condition_code @ u '':'' @ [10] @ body)))))))"

definition generate_assignment :: "generator \<Rightarrow> ast \<Rightarrow> nat \<Rightarrow> exn + pyval" where
  "generate_assignment gen node lvl =
     (case children node of
        [] \<Rightarrow> Inl IndexError
      | var_node # rest \<Rightarrow>
          (case gen var_node lvl of
             Inl e \<Rightarrow> Inl e
           | Inr var_code \<Rightarrow>
               (case rest of
                  [] \<Rightarrow> Inl IndexError
                | expr_node # _ \<Rightarrow>
                    (case gen expr_node lvl of
                       Inl e \<Rightarrow> Inl e
                     | Inr expr_code \<Rightarrow>
                         Inr (Some (py_str var_code @ u '' = '' @ py_str expr_code))))))"

definition generate_function_call :: "generator \<Rightarrow> ast \<Rightarrow> nat \<Rightarrow> exn + pyval" where
  "generate_function_call gen node lvl =
     (case children node of
        [] \<Rightarrow> Inl IndexError
      | args_node # _ \<Rightarrow>
          (case gen args_node lvl of
             Inl e \<Rightarrow> Inl e
           | Inr args_code \<Rightarrow>
               Inr (Some (py_str (node_value node) @ u ''('' @ py_str args_code @ u '')''))))"

definition generate_variable :: "ast \<Rightarrow> exn + pyval" where
  "generate_variable node = Inr (node_value node)"

definition generate_literal :: "ast \<Rightarrow> exn + pyval" where
  "generate_literal node = Inr (Some (py_str (node_value node)))"

definition generate_expression :: "ast \<Rightarrow> exn + pyval" where
  "generate_expression node = Inr (Some (py_str (node_value node)))"

text \<open>
  \<^verbatim>\<open>_generate_condition\<close>, \<^verbatim>\<open>_generate_then\<close>, \<^verbatim>\<open>_generate_else\<close>,
  \<^verbatim>\<open>_generate_iterable\<close> and \<^verbatim>\<open>_generate_body\<close> have the same body: the code of the
  first child, or the empty string.
\<close>

definition generate_first_child :: "generator \<Rightarrow> ast \<Rightarrow> nat \<Rightarrow> exn + pyval" where
  "generate_first_child gen node lvl =
     (case children node of [] \<Rightarrow> Inr (Some []) | child # _ \<Rightarrow> gen child lvl)"

definition generate_parameters :: "ast \<Rightarrow> exn + pyval" where
  "generate_parameters node =
     (case py_join (u '', '') (map node_value (children node)) of
        Inl e \<Rightarrow> Inl e
      | Inr s \<Rightarrow> Inr (Some s))"

fun generate_arguments_loop :: "generator \<Rightarrow> ast list \<Rightarrow> nat \<Rightarrow> pyval list \<Rightarrow> exn + pyval list" where
  "generate_arguments_loop gen [] lvl args = Inr args"
| "generate_arguments_loop gen (arg # rest) lvl args =
     (case gen arg lvl of
        Inl e \<Rightarrow> Inl e
      | Inr arg_code \<Rightarrow> generate_arguments_loop gen rest lvl (args @ [arg_code]))"

definition generate_arguments :: "generator \<Rightarrow> ast \<Rightarrow> nat \<Rightarrow> exn + pyval" where
  "generate_arguments gen node lvl =
     (case generate_arguments_loop gen (children node) lvl [] of
        Inl e \<Rightarrow> Inl e
      | Inr args \<Rightarrow> (case py_join (u '', '') args of Inl e \<Rightarrow> Inl e | Inr s \<Rightarrow> Inr (Some s)))"

text \<open>
  \<^verbatim>\<open>_generate_node\<close>, the dispatcher.  The walk is recursive, and the interpreter
  raises \<^verbatim>\<open>RecursionError\<close> when a call would exceed its recursion limit.  \<open>frames\<close> is
  the number of nested calls of the generating methods the limit still allows when
  \<^verbatim>\<open>_generate_node\<close> is called: the call takes one, the handler it dispatches to takes a
  second one, and the calls of \<^verbatim>\<open>_generate_node\<close> in a handler are given what is left.
  A node of unknown type has no handler.  The calls of \<^verbatim>\<open>_indent\<close> and of the string
  methods return without calling a generating method and are not counted.
\<close>

definition has_generator :: "string \<Rightarrow> bool" where
  "has_generator t =
     (t \<in> set [''PROGRAM'', ''FUNCTION_DEF'', ''BLOCK'', ''IF_STATEMENT'', ''FOR_LOOP'',
                ''WHILE_LOOP'', ''ASSIGNMENT'', ''FUNCTION_CALL'', ''VARIABLE'', ''LITERAL'',
                ''EXPRESSION'', ''CONDITION'', ''THEN'', ''ELSE'', ''PARAMETERS'', ''ARGUMENTS'',
                ''ITERABLE'', ''BODY''])"

fun generate_node :: "nat \<Rightarrow> ast \<Rightarrow> nat \<Rightarrow> exn + pyval" where
  "generate_node frames node lvl =
     (if frames = 0 then Inl RecursionError
      else if has_generator (node_type node) \<and> frames = 1 then Inl RecursionError
      else if node_type node = ''PROGRAM'' then generate_program (generate_node (frames - 2)) node lvl
      else if node_type node = ''FUNCTION_DEF''
      then generate_function_def (generate_node (frames - 2)) node lvl
      else if node_type node = ''BLOCK'' then generate_block (generate_node (frames - 2)) node lvl
      else if node_type node = ''IF_STATEMENT''
      then generate_if_statement (generate_node (frames - 2)) node lvl
      else if node_type node = ''FOR_LOOP'' then generate_for_loop (generate_node (frames - 2)) node lvl
      else if node_type node = ''WHILE_LOOP''
      then generate_while_loop (generate_node (frames - 2)) node lvl
      else if node_type node = ''ASSIGNMENT''
      then generate_assignment (generate_node (frames - 2)) node lvl
      else if node_type node = ''FUNCTION_CALL''
      then generate_function_call (generate_node (frames - 2)) node lvl
      else if node_type node = ''VARIABLE'' then generate_variable node
      else if node_type node = ''LITERAL'' then generate_literal node
      else if node_type node = ''EXPRESSION'' then generate_expression node
      else if node_type node = ''CONDITION''
      then generate_first_child (generate_node (frames - 2)) node lvl
      else if node_type node = ''THEN'' then generate_first_child (generate_node (frames - 2)) node lvl
      else if node_type node = ''ELSE'' then generate_first_child (generate_node (frames - 2)) node lvl
      else if node_type node = ''PARAMETERS'' then generate_parameters node
      else if node_type node = ''ARGUMENTS''
      then generate_arguments (generate_node (frames - 2)) node lvl
      else if node_type node = ''ITERABLE''
      then generate_first_child (generate_node (frames - 2)) node lvl
      else if node_type node = ''BODY'' then generate_first_child (generate_node (frames - 2)) node lvl
      else Inr (Some []))"

declare generate_node.simps [simp del]

text \<open>utils.py: \<^verbatim>\<open>format_python_code\<close>, with \<^verbatim>\<open>code.split('\n')\<close> and the loop over the lines.\<close>

definition split_lines :: "pystr \<Rightarrow> pystr list" where
  "split_lines s = foldr (\<lambda>c acc. if c = 10 then [] # acc else (c # hd acc) # tl acc) s [[]]"

fun format_lines :: "pystr list \<Rightarrow> nat \<Rightarrow> pystr list \<Rightarrow> pystr list" where
  "format_lines [] indent_level formatted_lines = formatted_lines"
| "format_lines (line # lines) indent_level formatted_lines =
     (let stripped = str_strip line in
      if stripped \<noteq> [] \<and> last stripped = 58
      then format_lines lines (indent_level + 1) (formatted_lines @ [indent indent_level @ stripped])
      else if stripped \<in> set (map u [''else:'', ''elif:'', ''except:'', ''finally:''])
      then format_lines lines (indent_level - 1 + 1)
             (formatted_lines @ [indent (indent_level - 1) @ stripped])
      else if stripped \<in> set (map u [''break'', ''continue'', ''pass'', ''return''])
      then format_lines lines indent_level (formatted_lines @ [indent indent_level @ stripped])
      else if stripped \<noteq> []
      then format_lines lines indent_level (formatted_lines @ [indent indent_level @ stripped])
      else format_lines lines indent_level formatted_lines)"

definition format_python_code :: "pyval \<Rightarrow> exn + pystr" where
  "format_python_code code =
     (case code of
        None \<Rightarrow> Inl (AttributeError (msg_no_attribute ''split''))
      | Some s \<Rightarrow> Inr (join_strs [10] (format_lines (split_lines s) 0 [])))"

text \<open>
  \<^verbatim>\<open>generate\<close>: every exception of the walk or of the formatting becomes a comment;
  \<open>frames\<close> is what the recursion limit allows when \<^verbatim>\<open>generate\<close> calls
  \<^verbatim>\<open>_generate_node\<close>.
\<close>

definition error_comment :: "pystr \<Rightarrow> exn \<Rightarrow> pystr" where
  "error_comment recursion_message e =
     u ''# Error en la generaci'' @ [243] @ u ''n de c'' @ [243] @ u ''digo: ''
       @ exn_str recursion_message e"

definition generate :: "pystr \<Rightarrow> nat \<Rightarrow> nat \<Rightarrow> ast \<Rightarrow> pystr" where
  "generate recursion_message frames indent_level tree =
     (case generate_node frames tree indent_level of
        Inl e \<Rightarrow> error_comment recursion_message e
      | Inr code \<Rightarrow>
          (case format_python_code code of
             Inl e \<Rightarrow> error_comment recursion_message e
           | Inr formatted_code \<Rightarrow> formatted_code))"

text \<open>
  The exceptions of the generator: those of its own code, each with a message of one
  line, and the RecursionError of the interpreter.
\<close>

definition generation_error :: "exn \<Rightarrow> bool" where
  "generation_error e =
     (case e of
        IndexError \<Rightarrow> True
      | TypeError m \<Rightarrow> 10 \<notin> set m
      | AttributeError m \<Rightarrow> 10 \<notin> set m
      | RecursionError \<Rightarrow> True
      | _ \<Rightarrow> False)"


section \<open>What the semantic analysis reports, read from the specification\<close>

text \<open>
  The specification describes the walk node type by node type.  \<open>survey\<close> follows
  that description on symbol tables alone: it returns the findings in the order the
  walk meets them and the table the walk leaves.  \<open>visible\<close> is the lookup order
  (current scope, then global) and \<open>register\<close> the registration in the current
  scope.  \<open>shaped\<close> holds of the trees whose analysed nodes have the children the
  walk indexes.
\<close>

datatype finding =
    Redefined_function pyval
  | Undefined_function pyval
  | Not_a_function pyval
  | Undefined_variable pyval

definition visible :: "pyval \<Rightarrow> symbol_table \<Rightarrow> symbol option" where
  "visible name t =
     (case symbols t (current_scope t) of
        None \<Rightarrow> None
      | Some scope \<Rightarrow>
          (case scope name of
             Some found \<Rightarrow> Some found
           | None \<Rightarrow> (case symbols t GLOBAL of None \<Rightarrow> None | Some g \<Rightarrow> g name)))"

definition register :: "pyval \<Rightarrow> string \<Rightarrow> symbol_table \<Rightarrow> symbol_table" where
  "register name kind t =
     (case symbols t (current_scope t) of
        None \<Rightarrow> t
      | Some scope \<Rightarrow>
          t\<lparr>symbols := (symbols t)(current_scope t \<mapsto>
               scope(name \<mapsto> \<lparr>sym_name = name, sym_type = kind,
                                 sym_scope = current_scope t, sym_value = None\<rparr>))\<rparr>)"

lemma size_list_take_le: "size_list f (take n xs) \<le> size_list f xs"
  by (induction xs arbitrary: n) (auto simp: take_Cons split: nat.splits)

lemma size_list_take_less [termination_simp]: "size_list f xs < k \<Longrightarrow> size_list f (take n xs) < k"
  using size_list_take_le [of f n xs] by simp

lemma size_list_take_less' [termination_simp]: "size_list f (take n xs) < Suc (size_list f xs + k)"
  using size_list_take_le [of f n xs] by simp

fun survey :: "ast \<Rightarrow> symbol_table \<Rightarrow> finding list \<times> symbol_table"
  and survey_each :: "ast list \<Rightarrow> symbol_table \<Rightarrow> finding list \<times> symbol_table" where
  "survey (ASTNode t v cs) tab =
     (if t = ''PROGRAM'' \<or> t = ''BLOCK'' then survey_each cs tab
      else if t = ''FUNCTION_DEF'' then
        (case cs of
           params # body # _ \<Rightarrow>
             let redefined = (if visible v tab \<noteq> None then [Redefined_function v] else []);
                 inner = fold (\<lambda>p. register (node_value p) ''PARAMETER'') (children params)
                           (enter_scope v (register v ''FUNCTION'' tab));
                 (fs, tab1) = survey body inner
             in (redefined @ fs, exit_scope tab1)
         | _ \<Rightarrow> ([], tab))
      else if t = ''IF_STATEMENT'' then survey_each (take 3 cs) tab
      else if t = ''FOR_LOOP'' then
        (case cs of
           var # rest \<Rightarrow> survey_each (take 2 rest) (register (node_value var) ''VARIABLE'' tab)
         | _ \<Rightarrow> ([], tab))
      else if t = ''WHILE_LOOP'' then survey_each (take 2 cs) tab
      else if t = ''ASSIGNMENT'' then
        (case cs of
           var # rest \<Rightarrow>
             survey_each (take 1 rest)
               (if visible (node_value var) tab = None then register (node_value var) ''VARIABLE'' tab
                else tab)
         | _ \<Rightarrow> ([], tab))
      else if t = ''FUNCTION_CALL'' then
        (let called = (case visible v tab of
                         None \<Rightarrow> [Undefined_function v]
                       | Some sy \<Rightarrow> if sym_type sy \<noteq> ''FUNCTION'' then [Not_a_function v] else [])
         in case cs of
              ASTNode _ _ args # _ \<Rightarrow> (let (fs, tab1) = survey_each args tab in (called @ fs, tab1))
            | _ \<Rightarrow> (called, tab))
      else if t = ''VARIABLE'' then
        (if visible v tab = None then [Undefined_variable v] else [], tab)
      else survey_each cs tab)"
| "survey_each [] tab = ([], tab)"
| "survey_each (c # cs) tab =
     (let (fs, tab1) = survey c tab; (gs, tab2) = survey_each cs tab1 in (fs @ gs, tab2))"

definition is_undefined_reference :: "finding \<Rightarrow> bool" where
  "is_undefined_reference f =
     (case f of Undefined_function n \<Rightarrow> True | Undefined_variable n \<Rightarrow> True | _ \<Rightarrow> False)"

definition render :: "finding \<Rightarrow> pystr" where
  "render f = (case f of
                 Redefined_function n \<Rightarrow> msg_already_defined n
               | Undefined_function n \<Rightarrow> msg_function_undefined n
               | Not_a_function n \<Rightarrow> msg_not_a_function n
               | Undefined_variable n \<Rightarrow> msg_variable_undefined n)"

fun shaped :: "ast \<Rightarrow> bool" and shaped_each :: "ast list \<Rightarrow> bool" where
  "shaped (ASTNode t v cs) =
     (if t = ''FUNCTION_DEF'' then (case cs of params # body # _ \<Rightarrow> shaped body | _ \<Rightarrow> False)
      else if t = ''IF_STATEMENT'' then
        (case cs of c # th # rest \<Rightarrow> shaped c \<and> shaped th \<and> (case rest of [] \<Rightarrow> True | e # _ \<Rightarrow> shaped e)
                  | _ \<Rightarrow> False)
      else if t = ''FOR_LOOP'' then (case cs of var # it # body # _ \<Rightarrow> shaped it \<and> shaped body | _ \<Rightarrow> False)
      else if t = ''WHILE_LOOP'' then (case cs of c # body # _ \<Rightarrow> shaped c \<and> shaped body | _ \<Rightarrow> False)
      else if t = ''ASSIGNMENT'' then (case cs of var # e # _ \<Rightarrow> shaped e | _ \<Rightarrow> False)
      else if t = ''FUNCTION_CALL'' then (case cs of ASTNode _ _ args # _ \<Rightarrow> shaped_each args | _ \<Rightarrow> False)
      else if t = ''VARIABLE'' then True
      else shaped_each cs)"
| "shaped_each [] = True"
| "shaped_each (c # cs) = (shaped c \<and> shaped_each cs)"

definition outcome :: "finding list \<times> symbol_table \<Rightarrow> semantic_analyzer \<Rightarrow> semantic_analyzer" where
  "outcome r self = self\<lparr>symbol_table := snd r, errors := errors self @ map render (fst r)\<rparr>"


text \<open>The number of nodes on the longest path from a node down to a leaf.\<close>

fun height :: "ast \<Rightarrow> nat" where
  "height (ASTNode t v cs) = Suc (fold max (map height cs) 0)"

definition refines :: "ast \<Rightarrow> bool" where
  "refines n = (\<forall>frames self. shaped n \<longrightarrow> st_inv (symbol_table self) \<longrightarrow> 2 * height n \<le> frames \<longrightarrow>
     analyze_node frames n self = (None, outcome (survey n (symbol_table self)) self)
     \<and> st_inv (snd (survey n (symbol_table self))))"
section \<open>Properties of the symbol table\<close>

lemma st_inv_init: "st_inv SymbolTable"
  by (simp add: st_inv_def SymbolTable_def)

lemma st_inv_enter_scope: "st_inv t \<Longrightarrow> st_inv (enter_scope n t)"
  by (auto simp: st_inv_def enter_scope_def Let_def)

lemma st_inv_exit_scope: "st_inv t \<Longrightarrow> st_inv (exit_scope t)"
  by (simp add: st_inv_def exit_scope_def)

lemma add_symbol_defined:
  "st_inv t \<Longrightarrow> \<exists>sy t'. add_symbol n ty t = Inr (sy, t') \<and> st_inv t'
     \<and> current_scope t' = current_scope t"
  by (auto simp: st_inv_def add_symbol_def Let_def split: option.splits)

lemma lookup_defined:
  "st_inv t \<Longrightarrow> \<exists>r. lookup n t = Inr r"
  by (auto simp: st_inv_def lookup_def split: option.splits)

lemma run_call_inv:
  assumes "st_inv t"
  shows "\<exists>t'. run_call c t = Inr t' \<and> st_inv t'"
proof (cases c)
  case (Enter_scope n)
  with assms show ?thesis by (simp add: st_inv_enter_scope)
next
  case Exit_scope
  with assms show ?thesis by (simp add: st_inv_exit_scope)
next
  case (Add_symbol n ty)
  from add_symbol_defined [OF assms, of n ty]
  obtain sy t' where "add_symbol n ty t = Inr (sy, t')" "st_inv t'"
    by blast
  with Add_symbol show ?thesis by simp
next
  case (Lookup n)
  from lookup_defined [OF assms, of n]
  obtain r where "lookup n t = Inr r" by blast
  with Lookup assms show ?thesis by simp
qed

lemma run_calls_inv:
  "st_inv t \<Longrightarrow> \<exists>t'. run_calls cs t = Inr t' \<and> st_inv t'"
proof (induction cs arbitrary: t)
  case Nil
  then show ?case by simp
next
  case (Cons c cs)
  from run_call_inv [OF Cons.prems, of c]
  obtain t1 where t1: "run_call c t = Inr t1" "st_inv t1" by blast
  from Cons.IH [OF t1(2)] t1(1) show ?case by simp
qed

text \<open>
  C10.  The fresh symbol table has the key "global" and its current scope in the scope
  map; every sequence of enter\_scope, exit\_scope, add\_symbol and lookup calls on it
  runs without a KeyError (no call indexes a missing scope) and ends in a table with
  the same two properties.
\<close>

theorem C10_symbol_table_invariant:
  "st_inv SymbolTable \<and> (\<exists>t. run_calls cs SymbolTable = Inr t \<and> st_inv t)"
  using run_calls_inv [OF st_inv_init] st_inv_init by blast

section \<open>Properties of the keyword remapping\<close>

lemma u_simps [simp]: "u [] = []" "u (c # cs) = of_char c # u cs"
  by (simp_all add: u_def)

lemma KEYWORD_MAPPING_values:
  "\<forall>w \<in> snd ` set KEYWORD_MAPPING. map_of KEYWORD_MAPPING w = None"
  by (simp add: KEYWORD_MAPPING_def)

lemma KEYWORD_MAPPING_values_unmapped:
  assumes "map_of KEYWORD_MAPPING v = Some w"
  shows "map_of KEYWORD_MAPPING w = None"
proof -
  from assms have "(v, w) \<in> set KEYWORD_MAPPING" by (rule map_of_SomeD)
  then have "w \<in> snd ` set KEYWORD_MAPPING" by force
  then show ?thesis by (rule KEYWORD_MAPPING_values [THEN bspec])
qed

text \<open>
  C8.  Under the default keyword mapping, mapping a token list twice gives the same
  token list (type, value and position of every token) as mapping it once.
\<close>

theorem C8_map_to_python_tokens_idempotent:
  "map_to_python_tokens (LexicalAnalyzer None None) (map_to_python_tokens (LexicalAnalyzer None None) T)
     = map_to_python_tokens (LexicalAnalyzer None None) T"
proof (induction T)
  case Nil
  show ?case by simp
next
  case (Cons t T)
  have km: "keyword_mapping (LexicalAnalyzer None None) = KEYWORD_MAPPING"
    by (simp add: LexicalAnalyzer_def)
  show ?case
  proof (cases "tok_type t = ''KEYWORD'' \<and> map_of KEYWORD_MAPPING (tok_value t) \<noteq> None")
    case True
    then obtain w where w: "map_of KEYWORD_MAPPING (tok_value t) = Some w" by blast
    from KEYWORD_MAPPING_values_unmapped [OF w] w True Cons.IH show ?thesis
      by (simp add: km Token_def)
  next
    case False
    with Cons.IH show ?thesis by (auto simp: km)
  qed
qed

section \<open>Properties of the semantic analysis\<close>

lemma lookup_after_add_symbol:
  "add_symbol x ty t = Inr (sy, tab) \<Longrightarrow> lookup x tab = Inr (Some sy)"
  by (auto simp: add_symbol_def lookup_def Let_def split: option.splits)

lemma lookup_None_inv: "lookup x t = Inr None \<Longrightarrow> st_inv t"
  by (auto simp: lookup_def st_inv_def split: option.splits)


text \<open>
  C5.  When lookup does not find the target of an ASSIGNMENT node, the target is
  registered as a VARIABLE symbol of the current scope, and the right-hand side is
  analysed in the table that already holds it (with the two frames less that the
  calls of \<^verbatim>\<open>_analyze_node\<close> and \<^verbatim>\<open>_analyze_assignment\<close> take).  So for the assignment
  of the target to itself the walk ends normally with the error list unchanged; and
  whatever the recursion limit, no message about an undefined variable is appended.
\<close>

theorem C5_assignment_defines_target_first:
  assumes "lookup x (symbol_table self) = Inr None"
  shows "\<exists>sy tab. add_symbol x ''VARIABLE'' (symbol_table self) = Inr (sy, tab)
           \<and> sym_type sy = ''VARIABLE'' \<and> sym_scope sy = current_scope (symbol_table self)
           \<and> lookup x tab = Inr (Some sy)
           \<and> analyze_node (frames + 2) (ASTNode ''ASSIGNMENT'' v (ASTNode vt x vcs # rhs # others)) self
               = analyze_node frames rhs (self\<lparr>symbol_table := tab\<rparr>)
           \<and> analyze_node (frames + 4)
                 (ASTNode ''ASSIGNMENT'' v [ASTNode vt x vcs, ASTNode ''VARIABLE'' x rcs]) self
               = (None, self\<lparr>symbol_table := tab\<rparr>)
           \<and> errors (snd (analyze_node frames
                 (ASTNode ''ASSIGNMENT'' v [ASTNode vt x vcs, ASTNode ''VARIABLE'' x rcs]) self))
               = errors self"
proof -
  from assms have "st_inv (symbol_table self)" by (rule lookup_None_inv)
  from add_symbol_defined [OF this, of x "''VARIABLE''"]
  obtain sy tab where a: "add_symbol x ''VARIABLE'' (symbol_table self) = Inr (sy, tab)" by blast
  then have l: "lookup x tab = Inr (Some sy)" by (rule lookup_after_add_symbol)
  from a have ty: "sym_type sy = ''VARIABLE''" "sym_scope sy = current_scope (symbol_table self)"
    by (auto simp: add_symbol_def Let_def split: option.splits)
  have step: "analyze_node (f + 2) (ASTNode ''ASSIGNMENT'' v (ASTNode vt x vcs # rhs # others)) self
               = analyze_node f rhs (self\<lparr>symbol_table := tab\<rparr>)" for rhs others f
    using assms a by (simp add: self_add_symbol_def has_handler_def)
  have var: "analyze_node (f + 2) (ASTNode ''VARIABLE'' x rcs) (self\<lparr>symbol_table := tab\<rparr>)
               = (None, self\<lparr>symbol_table := tab\<rparr>)" for f
    using l by (simp add: has_handler_def)
  have full: "analyze_node (f + 4)
                 (ASTNode ''ASSIGNMENT'' v [ASTNode vt x vcs, ASTNode ''VARIABLE'' x rcs]) self
               = (None, self\<lparr>symbol_table := tab\<rparr>)" for f
  proof -
    have "f + 4 = f + 2 + 2" by simp
    then show ?thesis
      using step [of "f + 2" "ASTNode ''VARIABLE'' x rcs" "[]"] var [of f]
      by (simp only:)
  qed
  have few: "errors (snd (analyze_node f (ASTNode ''VARIABLE'' x rcs) (self\<lparr>symbol_table := tab\<rparr>)))
               = errors self" for f
    using l by (simp add: has_handler_def)
  have unchanged: "errors (snd (analyze_node frames
                 (ASTNode ''ASSIGNMENT'' v [ASTNode vt x vcs, ASTNode ''VARIABLE'' x rcs]) self))
               = errors self"
  proof (cases "frames < 2")
    case True
    then have "frames = 0 \<or> frames = 1" by linarith
    then show ?thesis by (auto simp: has_handler_def)
  next
    case False
    then obtain f where f: "frames = f + 2" using le_Suc_ex [of 2 frames] by (auto simp: add.commute)
    from step [of f "ASTNode ''VARIABLE'' x rcs" "[]"] few [of f] f show ?thesis by simp
  qed
  from a l ty step [of frames] full [of frames] unchanged show ?thesis by blast
qed

theorem C5_witness:
  "lookup (Some (u ''x'')) (symbol_table SemanticAnalyzer) = Inr None
   \<and> errors (snd (analyze_node 1000 (ASTNode ''ASSIGNMENT'' None
         [ASTNode ''VARIABLE'' (Some (u ''x'')) [], ASTNode ''VARIABLE'' (Some (u ''x'')) []]) SemanticAnalyzer)) = []"
proof -
  have h: "lookup (Some (u ''x'')) (symbol_table SemanticAnalyzer) = Inr None"
    by (simp add: lookup_def SemanticAnalyzer_def SymbolTable_def GLOBAL_def)
  from C5_assignment_defines_target_first [OF h, of 1000 None "''VARIABLE''" "[]" undefined undefined "[]"]
  have "errors (snd (analyze_node 1000 (ASTNode ''ASSIGNMENT'' None
         [ASTNode ''VARIABLE'' (Some (u ''x'')) [], ASTNode ''VARIABLE'' (Some (u ''x'')) []]) SemanticAnalyzer))
        = errors SemanticAnalyzer"
    by blast
  with h show ?thesis by (simp add: SemanticAnalyzer_def)
qed
lemma lookup_visible: "st_inv t \<Longrightarrow> lookup n t = Inr (visible n t)"
  by (auto simp: st_inv_def lookup_def visible_def split: option.splits)

lemma add_symbol_register:
  "st_inv t \<Longrightarrow> \<exists>sy. add_symbol n k t = Inr (sy, register n k t)"
  by (auto simp: st_inv_def add_symbol_def register_def Let_def split: option.splits)

lemma st_inv_register: "st_inv t \<Longrightarrow> st_inv (register n k t)"
  by (auto simp: st_inv_def register_def split: option.splits)

lemma self_add_symbol_register:
  "st_inv (symbol_table self) \<Longrightarrow>
     self_add_symbol n k self = (None, self\<lparr>symbol_table := register n k (symbol_table self)\<rparr>)"
  using add_symbol_register [of "symbol_table self" n k] by (auto simp: self_add_symbol_def)

lemma st_inv_fold_register:
  "st_inv t \<Longrightarrow> st_inv (fold (\<lambda>p. register (node_value p) k) ps t)"
  by (induction ps arbitrary: t) (auto simp: st_inv_register)

lemma add_parameters_register:
  "st_inv (symbol_table self) \<Longrightarrow>
     add_parameters ps self
       = (None, self\<lparr>symbol_table := fold (\<lambda>p. register (node_value p) ''PARAMETER'') ps (symbol_table self)\<rparr>)"
  by (induction ps arbitrary: self) (auto simp: self_add_symbol_register st_inv_register)


lemma outcome_simps [simp]:
  "symbol_table (outcome r self) = snd r"
  "errors (outcome r self) = errors self @ map render (fst r)"
  by (simp_all add: outcome_def)

lemma outcome_outcome:
  "outcome r2 (outcome r1 self) = outcome (fst r1 @ fst r2, snd r2) self"
  by (simp add: outcome_def)


lemma fold_max_ge: "(a :: nat) \<le> fold max xs a"
  by (induction xs arbitrary: a) (auto intro: order_trans [OF max.cobounded2])

lemma fold_max_mem: "(x :: nat) \<in> set xs \<Longrightarrow> x \<le> fold max xs a"
proof (induction xs arbitrary: a)
  case Nil
  then show ?case by simp
next
  case (Cons y ys)
  show ?case
  proof (cases "x = y")
    case True
    from fold_max_ge [of "max y a" ys] True show ?thesis by simp
  next
    case False
    with Cons show ?thesis by simp
  qed
qed

lemma height_child: "c \<in> set cs \<Longrightarrow> Suc (height c) \<le> height (ASTNode t v cs)"
  using fold_max_mem [of "height c" "map height cs" 0] by simp

lemma each_refines:
  assumes "\<And>c self. c \<in> set cs \<Longrightarrow> shaped c \<Longrightarrow> st_inv (symbol_table self) \<Longrightarrow>
             analyze_node frames c self = (None, outcome (survey c (symbol_table self)) self)
             \<and> st_inv (snd (survey c (symbol_table self)))"
  shows "shaped_each cs \<Longrightarrow> st_inv (symbol_table self) \<Longrightarrow>
           analyze_each frames cs self = (None, outcome (survey_each cs (symbol_table self)) self)
           \<and> st_inv (snd (survey_each cs (symbol_table self)))"
  using assms
proof (induction cs arbitrary: self)
  case Nil
  from Nil.prems(2) show ?case by (simp add: outcome_def)
next
  case (Cons c cs)
  from Cons.prems(1) have sc: "shaped c" and scs: "shaped_each cs" by simp_all
  from Cons.prems(3) [of c self] sc Cons.prems(2)
  have c: "analyze_node frames c self = (None, outcome (survey c (symbol_table self)) self)"
      and ci: "st_inv (snd (survey c (symbol_table self)))"
    by simp_all
  have "analyze_each frames cs (outcome (survey c (symbol_table self)) self)
          = (None, outcome (survey_each cs (snd (survey c (symbol_table self)))) (outcome (survey c (symbol_table self)) self))
        \<and> st_inv (snd (survey_each cs (snd (survey c (symbol_table self)))))"
    using Cons.IH [of "outcome (survey c (symbol_table self)) self"] Cons.prems(3) scs ci by simp
  with c show ?case
    by (simp add: outcome_outcome case_prod_unfold Let_def)
qed

lemma each_refines':
  "\<forall>c \<in> set cs. refines c \<Longrightarrow> \<forall>c \<in> set cs. 2 * height c \<le> frames \<Longrightarrow> shaped_each cs \<Longrightarrow>
     st_inv (symbol_table self) \<Longrightarrow>
           analyze_each frames cs self = (None, outcome (survey_each cs (symbol_table self)) self)
           \<and> st_inv (snd (survey_each cs (symbol_table self)))"
  by (rule each_refines) (auto simp: refines_def)

lemma while_as_each:
  "2 \<le> frames \<Longrightarrow>
   analyze_node frames (ASTNode ''WHILE_LOOP'' v (c # b # rest)) self = analyze_each (frames - 2) [c, b] self"
  by (simp add: has_handler_def split: prod.splits option.splits)

lemma if_as_each:
  "2 \<le> frames \<Longrightarrow>
   analyze_node frames (ASTNode ''IF_STATEMENT'' v (c # th # rest)) self
     = analyze_each (frames - 2) (c # th # take 1 rest) self"
  by (cases rest) (simp_all add: has_handler_def split: prod.splits option.splits)

lemma for_as_each:
  "st_inv (symbol_table self) \<Longrightarrow> 2 \<le> frames \<Longrightarrow>
   analyze_node frames (ASTNode ''FOR_LOOP'' v (var # it # body # rest)) self
     = analyze_each (frames - 2) [it, body]
         (self\<lparr>symbol_table := register (node_value var) ''VARIABLE'' (symbol_table self)\<rparr>)"
  by (simp add: has_handler_def self_add_symbol_register split: prod.splits option.splits)

lemma assignment_as_each:
  "st_inv (symbol_table self) \<Longrightarrow> 2 \<le> frames \<Longrightarrow>
   analyze_node frames (ASTNode ''ASSIGNMENT'' v (var # e # rest)) self
     = analyze_each (frames - 2) [e] (self\<lparr>symbol_table :=
          (if visible (node_value var) (symbol_table self) = None
           then register (node_value var) ''VARIABLE'' (symbol_table self)
           else symbol_table self)\<rparr>)"
  by (simp add: has_handler_def self_add_symbol_register lookup_visible split: prod.splits option.splits)

lemma function_def_as_body:
  "st_inv (symbol_table self) \<Longrightarrow> 2 \<le> frames \<Longrightarrow>
   analyze_node frames (ASTNode ''FUNCTION_DEF'' v (params # body # rest)) self
     = (case analyze_node (frames - 2) body
              ((if visible v (symbol_table self) \<noteq> None then append_error (msg_already_defined v) self else self)
                 \<lparr>symbol_table := fold (\<lambda>p. register (node_value p) ''PARAMETER'') (children params)
                                    (enter_scope v (register v ''FUNCTION'' (symbol_table self)))\<rparr>) of
          (Some e, self5) \<Rightarrow> (Some e, self5)
        | (None, self5) \<Rightarrow> (None, self5\<lparr>symbol_table := exit_scope (symbol_table self5)\<rparr>))"
  by (simp add: has_handler_def lookup_visible self_add_symbol_register add_parameters_register
        append_error_def st_inv_register st_inv_enter_scope Let_def)

lemma function_call_as_each:
  "st_inv (symbol_table self) \<Longrightarrow> 2 \<le> frames \<Longrightarrow>
   analyze_node frames (ASTNode ''FUNCTION_CALL'' v (ASTNode at av args # rest)) self
     = analyze_each (frames - 2) args
         (case visible v (symbol_table self) of
            None \<Rightarrow> append_error (msg_function_undefined v) self
          | Some sy \<Rightarrow> if sym_type sy \<noteq> ''FUNCTION'' then append_error (msg_not_a_function v) self else self)"
  by (simp add: has_handler_def lookup_visible Let_def)

lemma node_refines:
  "refines n \<and> (\<forall>c \<in> set (children n). refines c)"
proof (induction n)
  case (ASTNode t v cs)
  then have IH: "\<forall>c \<in> set cs. refines c"
    and IH2: "\<forall>c \<in> set cs. \<forall>g \<in> set (children c). refines g" by auto
  have "refines (ASTNode t v cs)"
    unfolding refines_def
  proof (intro allI impI)
  fix frames :: nat and self :: semantic_analyzer
  assume sh: "shaped (ASTNode t v cs)" and inv: "st_inv (symbol_table self)"
    and fr: "2 * height (ASTNode t v cs) \<le> frames"
  let ?goal = "analyze_node frames (ASTNode t v cs) self
                 = (None, outcome (survey (ASTNode t v cs) (symbol_table self)) self)
        \<and> st_inv (snd (survey (ASTNode t v cs) (symbol_table self)))"
  from fr have f2: "2 \<le> frames" by simp
  have hc: "2 * height c \<le> frames - 2" if "c \<in> set cs" for c
    using height_child [OF that, of t v] fr by linarith
  have each: "shaped_each ds \<Longrightarrow> st_inv (symbol_table s) \<Longrightarrow>
           analyze_each (frames - 2) ds s = (None, outcome (survey_each ds (symbol_table s)) s)
           \<and> st_inv (snd (survey_each ds (symbol_table s)))" if "set ds \<subseteq> set cs" for ds s
    using that IH hc by (intro each_refines') auto
  have each1: "shaped_each cs \<Longrightarrow> st_inv (symbol_table s) \<Longrightarrow>
           analyze_each (frames - 1) cs s = (None, outcome (survey_each cs (symbol_table s)) s)
           \<and> st_inv (snd (survey_each cs (symbol_table s)))" for s
  proof (intro each_refines' IH ballI)
    fix c assume "c \<in> set cs"
    from hc [OF this] show "2 * height c \<le> frames - 1" by linarith
  qed
  have prog: ?goal if "t = ''PROGRAM''"
    using that each [of cs self] sh inv f2 by (simp add: has_handler_def)
  have block: ?goal if "t = ''BLOCK''"
    using that each [of cs self] sh inv f2 by (simp add: has_handler_def)
  have var: ?goal if "t = ''VARIABLE''"
    using that inv f2 by (simp add: has_handler_def lookup_visible outcome_def append_error_def render_def)
  have whilel: ?goal if "t = ''WHILE_LOOP''"
  proof -
    from sh that obtain c b rest where cs: "cs = c # b # rest" and s2: "shaped_each [c, b]"
      by (auto split: list.splits)
    from each [of "[c, b]" self] s2 inv cs that show ?thesis
      by (simp only: while_as_each [OF f2] survey.simps) simp
  qed
  have ifs: ?goal if "t = ''IF_STATEMENT''"
  proof -
    from sh that obtain c th rest where cs: "cs = c # th # rest"
        and s2: "shaped_each (c # th # take 1 rest)"
      by (auto split: list.splits)
    have sub: "set (c # th # take 1 rest) \<subseteq> set cs"
      using cs set_take_subset [of 1 rest] by auto
    from each [OF sub, of self] s2 inv cs that show ?thesis
      by (simp only: if_as_each [OF f2] survey.simps) simp
  qed
  have forl: ?goal if "t = ''FOR_LOOP''"
  proof -
    from sh that obtain var it body rest where cs: "cs = var # it # body # rest"
        and s2: "shaped_each [it, body]"
      by (auto split: list.splits)
    let ?self1 = "self\<lparr>symbol_table := register (node_value var) ''VARIABLE'' (symbol_table self)\<rparr>"
    have inv1: "st_inv (symbol_table ?self1)" using inv by (simp add: st_inv_register)
    have sub: "set [it, body] \<subseteq> set cs" using cs by auto
    from each [OF sub s2 inv1] inv cs that show ?thesis
      by (simp only: for_as_each [OF inv f2] survey.simps) (simp add: outcome_def)
  qed
  have assign: ?goal if "t = ''ASSIGNMENT''"
  proof -
    from sh that obtain var e rest where cs: "cs = var # e # rest"
        and s2: "shaped_each [e]"
      by (auto split: list.splits)
    let ?tab1 = "if visible (node_value var) (symbol_table self) = None
           then register (node_value var) ''VARIABLE'' (symbol_table self)
           else symbol_table self"
    let ?self1 = "self\<lparr>symbol_table := ?tab1\<rparr>"
    have inv1: "st_inv (symbol_table ?self1)" using inv by (simp add: st_inv_register)
    have sub: "set [e] \<subseteq> set cs" using cs by auto
    from each [OF sub s2 inv1] inv cs that show ?thesis
      by (simp only: assignment_as_each [OF inv f2] survey.simps) (simp add: outcome_def)
  qed
  have other: ?goal
    if "t \<noteq> ''PROGRAM''" "t \<noteq> ''FUNCTION_DEF''" "t \<noteq> ''BLOCK''" "t \<noteq> ''IF_STATEMENT''"
       "t \<noteq> ''FOR_LOOP''" "t \<noteq> ''WHILE_LOOP''" "t \<noteq> ''ASSIGNMENT''" "t \<noteq> ''FUNCTION_CALL''"
       "t \<noteq> ''VARIABLE''"
    using that each1 [of self] sh inv f2 by (simp add: has_handler_def)
  have fdef: ?goal if "t = ''FUNCTION_DEF''"
  proof -
    from sh that obtain params body rest where cs: "cs = params # body # rest"
        and s2: "shaped body"
      by (auto split: list.splits)
    let ?self1 = "(if visible v (symbol_table self) \<noteq> None then append_error (msg_already_defined v) self else self)
                 \<lparr>symbol_table := fold (\<lambda>p. register (node_value p) ''PARAMETER'') (children params)
                                    (enter_scope v (register v ''FUNCTION'' (symbol_table self)))\<rparr>"
    have inv1: "st_inv (symbol_table ?self1)"
      using inv by (simp add: st_inv_register st_inv_enter_scope st_inv_fold_register)
    from IH cs have "refines body" by simp
    moreover from hc [of body] cs have "2 * height body \<le> frames - 2" by simp
    ultimately have b: "analyze_node (frames - 2) body ?self1
                          = (None, outcome (survey body (symbol_table ?self1)) ?self1)"
      and bi: "st_inv (snd (survey body (symbol_table ?self1)))"
      using s2 inv1 unfolding refines_def by blast+
    from b bi inv cs that show ?thesis
      by (simp only: function_def_as_body [OF inv f2] survey.simps)
         (simp add: outcome_def append_error_def render_def st_inv_exit_scope case_prod_unfold Let_def)
  qed
  have fcall: ?goal if "t = ''FUNCTION_CALL''"
  proof -
    from sh that obtain at av args rest where cs: "cs = ASTNode at av args # rest"
        and s2: "shaped_each args"
      by (auto split: list.splits ast.splits)
    let ?self1 = "case visible v (symbol_table self) of
            None \<Rightarrow> append_error (msg_function_undefined v) self
          | Some sy \<Rightarrow> if sym_type sy \<noteq> ''FUNCTION'' then append_error (msg_not_a_function v) self else self"
    have tab1: "symbol_table ?self1 = symbol_table self"
      by (simp add: append_error_def split: option.splits)
    from IH2 cs have r: "\<forall>g \<in> set args. refines g" by simp
    have h: "\<forall>g \<in> set args. 2 * height g \<le> frames - 2"
    proof
      fix g assume g: "g \<in> set args"
      from hc [of "ASTNode at av args"] cs have "2 * height (ASTNode at av args) \<le> frames - 2" by simp
      with height_child [OF g, of at av] show "2 * height g \<le> frames - 2" by linarith
    qed
    from each_refines' [OF r h s2, of ?self1] inv tab1
    have a: "analyze_each (frames - 2) args ?self1 = (None, outcome (survey_each args (symbol_table self)) ?self1)"
      and ai: "st_inv (snd (survey_each args (symbol_table self)))"
      by simp_all
    from a ai inv cs that show ?thesis
      by (simp only: function_call_as_each [OF inv f2] survey.simps)
         (simp add: outcome_def append_error_def render_def case_prod_unfold Let_def split: option.splits)
  qed
  show ?goal
    apply (cases "t = ''PROGRAM''", rule prog, assumption)
    apply (cases "t = ''FUNCTION_DEF''", rule fdef, assumption)
    apply (cases "t = ''BLOCK''", rule block, assumption)
    apply (cases "t = ''IF_STATEMENT''", rule ifs, assumption)
    apply (cases "t = ''FOR_LOOP''", rule forl, assumption)
    apply (cases "t = ''WHILE_LOOP''", rule whilel, assumption)
    apply (cases "t = ''ASSIGNMENT''", rule assign, assumption)
    apply (cases "t = ''FUNCTION_CALL''", rule fcall, assumption)
    apply (cases "t = ''VARIABLE''", rule var, assumption)
    apply (rule other; assumption)
    done
  qed
  with IH show ?case by simp
qed

lemma analyze_survey:
  assumes "shaped tree" and "2 * height tree \<le> frames"
  shows "analyze frames tree SemanticAnalyzer
           = (fst (survey tree SymbolTable) = [],
              \<lparr>symbol_table = snd (survey tree SymbolTable),
               errors = map render (fst (survey tree SymbolTable))\<rparr>)"
proof -
  have "refines tree" using node_refines [of tree] by simp
  moreover have "st_inv (symbol_table (SemanticAnalyzer\<lparr>errors := []\<rparr>))"
    by (simp add: SemanticAnalyzer_def st_inv_init)
  ultimately have "analyze_node frames tree (SemanticAnalyzer\<lparr>errors := []\<rparr>)
      = (None, outcome (survey tree SymbolTable) (SemanticAnalyzer\<lparr>errors := []\<rparr>))"
    using assms unfolding refines_def by (simp add: SemanticAnalyzer_def)
  then show ?thesis
    by (simp add: analyze_def outcome_def SemanticAnalyzer_def)
qed
definition twice_defined :: ast where
  "twice_defined =
     ASTNode ''PROGRAM'' None
       [ASTNode ''FUNCTION_DEF'' (Some (u ''f''))
          [ASTNode ''PARAMETERS'' None [], ASTNode ''BLOCK'' None [ASTNode ''LITERAL'' (Some (u ''1'')) []]],
        ASTNode ''FUNCTION_DEF'' (Some (u ''f''))
          [ASTNode ''PARAMETERS'' None [], ASTNode ''BLOCK'' None [ASTNode ''LITERAL'' (Some (u ''1'')) []]]]"

definition x_is_5 :: ast where
  "x_is_5 =
     ASTNode ''PROGRAM'' None
       [ASTNode ''ASSIGNMENT'' None
          [ASTNode ''VARIABLE'' (Some (u ''x'')) [], ASTNode ''LITERAL'' (Some (u ''5'')) []]]"

lemma survey_twice_defined:
  "fst (survey twice_defined SymbolTable) = [Redefined_function (Some (u ''f''))]"
  by (simp add: twice_defined_def SymbolTable_def GLOBAL_def visible_def register_def
        enter_scope_def exit_scope_def Let_def)



text \<open>
  The walk also fails, whatever the tree refers to, when the tree is deeper than the
  recursion limit allows: n BLOCK nodes, each the only child of the one before,
  around a literal need two frames each.
\<close>

fun nested_block :: "nat \<Rightarrow> ast" where
  "nested_block 0 = ASTNode ''LITERAL'' (Some (u ''1'')) []"
| "nested_block (Suc n) = ASTNode ''BLOCK'' None [nested_block n]"

lemma nested_block_exceeds:
  "frames < 2 * n \<Longrightarrow> analyze_node frames (nested_block n) self = (Some RecursionError, self)"
proof (induction n arbitrary: frames)
  case 0
  then show ?case by simp
next
  case (Suc n)
  show ?case
  proof (cases "frames < 2")
    case True
    then have "frames = 0 \<or> frames = 1" by linarith
    then show ?thesis by (auto simp: has_handler_def)
  next
    case False
    with Suc.prems have "frames - 2 < 2 * n" by simp
    from Suc.IH [OF this] False show ?thesis by (simp add: has_handler_def)
  qed
qed

lemma nested_block_shaped: "shaped (nested_block n) \<and> fst (survey (nested_block n) tab) = []"
  by (induction n) (simp_all add: case_prod_unfold Let_def)

lemma analyze_nested_block:
  "frames < 2 * n \<Longrightarrow> fst (analyze frames (nested_block n) self) = False"
  by (simp add: analyze_def nested_block_exceeds)



section \<open>Properties of the lexer\<close>


lemma try_patterns_first:
  "k < length ps \<Longrightarrow> fst (ps ! k) (drop position text) = Some n \<Longrightarrow>
   \<forall>j<k. fst (ps ! j) (drop position text) = None \<Longrightarrow>
   try_patterns ps text position
     = Some (case snd (ps ! k) of
               Some f \<Rightarrow> [f (take n (drop position text)) (int position)]
             | None \<Rightarrow> [],
             position + n)"
proof (induction ps arbitrary: k)
  case Nil
  then show ?case by simp
next
  case (Cons p ps)
  obtain regex token_func where p: "p = (regex, token_func)" by (cases p)
  show ?case
  proof (cases k)
    case 0
    with Cons.prems p show ?thesis by simp
  next
    case (Suc k')
    with Cons.prems have "fst ((p # ps) ! 0) (drop position text) = None" by blast
    with p have r: "regex (drop position text) = None" by simp
    from Cons.prems Suc have "\<forall>j<k'. fst (ps ! j) (drop position text) = None" by auto
    with Cons.IH [of k'] Cons.prems Suc r p show ?thesis by simp
  qed
qed

lemma try_patterns_none:
  "\<forall>k<length ps. fst (ps ! k) (drop position text) = None \<Longrightarrow> try_patterns ps text position = None"
proof (induction ps)
  case Nil
  show ?case by simp
next
  case (Cons p ps)
  obtain regex token_func where p: "p = (regex, token_func)" by (cases p)
  from Cons.prems have "fst ((p # ps) ! 0) (drop position text) = None" by blast
  with p have r: "regex (drop position text) = None" by simp
  from Cons.prems have "\<forall>k<length ps. fst (ps ! k) (drop position text) = None" by auto
  with Cons.IH r p show ?case by simp
qed

lemma re_word_le: "re_word r = Some n \<Longrightarrow> n \<le> length r"
  using length_takeWhile_le [of ascii_word "tl r"]
  by (auto simp: re_word_def split: list.splits if_splits)
lemma re_float_le: "re_float U r = Some n \<Longrightarrow> n \<le> length r"
proof -
  assume a: "re_float U r = Some n"
  let ?w = "takeWhile (re_d U) r"
  from a obtain c cs where d: "drop (length ?w) r = c # cs"
    and n: "n = length ?w + 1 + length (takeWhile (re_d U) cs)"
    by (auto simp: re_float_def Let_def split: list.splits if_splits)
  have "length (takeWhile (re_d U) cs) \<le> length cs" by (rule length_takeWhile_le)
  moreover from d have "length r - length ?w = Suc (length cs)"
    by (metis length_drop length_Cons)
  ultimately show ?thesis using n by simp
qed
lemma re_integer_le: "re_integer U r = Some n \<Longrightarrow> n \<le> length r"
  using length_takeWhile_le [of "re_d U" r]
  by (auto simp: re_integer_def Let_def split: if_splits)
lemma re_operator_le: "re_operator r = Some n \<Longrightarrow> n \<le> length r"
  by (auto simp: re_operator_def split: list.splits if_splits)
lemma re_delimiter_le: "re_delimiter r = Some n \<Longrightarrow> n \<le> length r"
  by (auto simp: re_delimiter_def split: list.splits if_splits)
lemma re_string_le: "re_string q r = Some n \<Longrightarrow> n \<le> length r"
  by (auto simp: re_string_def split: list.splits if_splits)
lemma re_whitespace_le: "re_whitespace r = Some n \<Longrightarrow> n \<le> length r"
  using length_takeWhile_le [of isspace r]
  by (auto simp: re_whitespace_def Let_def split: if_splits)

lemma pattern_match_bounds:
  assumes "k < length (build_token_patterns U self)"
    and "fst (build_token_patterns U self ! k) r = Some n"
  shows "0 < n \<and> n \<le> length r"
proof -
  from assms(1) have "k < 8" by (simp add: build_token_patterns_def)
  then consider "k = 0" | "k = 1" | "k = 2" | "k = 3" | "k = 4" | "k = 5" | "k = 6" | "k = 7"
    by linarith
  then show ?thesis
    using assms(2)
    by cases
      (auto simp: build_token_patterns_def
         dest: re_word_pos re_float_pos re_integer_pos re_operator_pos re_delimiter_pos
               re_string_pos re_whitespace_pos re_word_le re_float_le re_integer_le re_operator_le
               re_delimiter_le re_string_le re_whitespace_le)
qed

text \<open>
  The scan as the specification words it.  \<open>first_match\<close> is the first pattern of a
  list, in its order, that matches a text, by its index and with the length of its
  match.  \<open>specified_scan\<close> lists the tokens from a position on: at the end of the
  text there are none; otherwise the first pattern that matches at the position
  gives its token (none for white space) and the scan goes on at the end of the match,
  and when no pattern matches it goes on one character further.
\<close>

definition first_match :: "pattern list \<Rightarrow> pystr \<Rightarrow> (nat \<times> nat) option" where
  "first_match ps r =
     (case find (\<lambda>k. fst (ps ! k) r \<noteq> None) [0..<length ps] of
        None \<Rightarrow> None
      | Some k \<Rightarrow> Some (k, the (fst (ps ! k) r)))"

lemma first_match_Some:
  "first_match ps r = Some (k, n) \<longleftrightarrow>
     k < length ps \<and> fst (ps ! k) r = Some n \<and> (\<forall>j<k. fst (ps ! j) r = None)"
proof
  assume a: "first_match ps r = Some (k, n)"
  then have f: "find (\<lambda>k. fst (ps ! k) r \<noteq> None) [0..<length ps] = Some k"
    and n: "n = the (fst (ps ! k) r)"
    by (auto simp: first_match_def split: option.splits)
  from f obtain i where i: "i < length [0..<length ps]" "fst (ps ! ([0..<length ps] ! i)) r \<noteq> None"
      "k = [0..<length ps] ! i" "\<forall>j<i. \<not> fst (ps ! ([0..<length ps] ! j)) r \<noteq> None"
    unfolding find_Some_iff by blast
  from i(1,3) have ki: "k = i" and kl: "k < length ps" by simp_all
  from i(2) ki kl n have m: "fst (ps ! k) r = Some n" by auto
  have "\<forall>j<k. fst (ps ! j) r = None"
  proof (intro allI impI)
    fix j assume "j < k"
    with i(4) ki kl show "fst (ps ! j) r = None" by simp
  qed
  with kl m show "k < length ps \<and> fst (ps ! k) r = Some n \<and> (\<forall>j<k. fst (ps ! j) r = None)"
    by simp
next
  assume a: "k < length ps \<and> fst (ps ! k) r = Some n \<and> (\<forall>j<k. fst (ps ! j) r = None)"
  then have "find (\<lambda>k. fst (ps ! k) r \<noteq> None) [0..<length ps] = Some k"
    unfolding find_Some_iff by (intro exI [of _ k]) simp
  with a show "first_match ps r = Some (k, n)" by (simp add: first_match_def)
qed

lemma first_match_None:
  "first_match ps r = None \<longleftrightarrow> (\<forall>k<length ps. fst (ps ! k) r = None)"
proof (cases "find (\<lambda>k. fst (ps ! k) r \<noteq> None) [0..<length ps]")
  case None
  then have "\<forall>k<length ps. fst (ps ! k) r = None"
    unfolding find_None_iff by auto
  moreover from None have "first_match ps r = None"
    by (simp only: first_match_def option.case)
  ultimately show ?thesis by simp
next
  case (Some k)
  then have "k < length ps \<and> fst (ps ! k) r \<noteq> None"
    unfolding find_Some_iff by auto
  moreover from Some have "first_match ps r \<noteq> None"
    by (simp only: first_match_def option.case) simp
  ultimately show ?thesis by auto
qed

lemma first_match_bounds:
  "first_match (build_token_patterns U self) r = Some (k, n) \<Longrightarrow> 0 < n \<and> n \<le> length r"
  unfolding first_match_Some using pattern_match_bounds by blast

function specified_scan :: "unicode \<Rightarrow> lexical_analyzer \<Rightarrow> pystr \<Rightarrow> nat \<Rightarrow> token list" where
  "specified_scan U self text position =
     (if length text \<le> position then []
      else (case first_match (build_token_patterns U self) (drop position text) of
              None \<Rightarrow> specified_scan U self text (position + 1)
            | Some (k, n) \<Rightarrow>
                (case snd (build_token_patterns U self ! k) of
                   Some f \<Rightarrow> [f (take n (drop position text)) (int position)]
                 | None \<Rightarrow> [])
                @ specified_scan U self text (position + n)))"
  by pat_completeness auto
termination
proof (relation "measure (\<lambda>(U, self, text, position). length text - position)", goal_cases)
  case 1
  show ?case by simp
next
  case (2 U self tx position)
  then show ?case by simp
next
  case (3 U self tx position x2 x y)
  then have "first_match (build_token_patterns U self) (drop position tx) = Some (x, y)" by simp
  from first_match_bounds [OF this] have "0 < y" by simp
  with 3 show ?case by (simp; linarith)
qed

declare specified_scan.simps [simp del]

lemma try_patterns_first_match:
  "try_patterns ps text position
     = (case first_match ps (drop position text) of
          None \<Rightarrow> None
        | Some (k, n) \<Rightarrow>
            Some (case snd (ps ! k) of
                    Some f \<Rightarrow> [f (take n (drop position text)) (int position)]
                  | None \<Rightarrow> [],
                  position + n))"
proof (cases "first_match ps (drop position text)")
  case None
  then have "\<forall>k<length ps. fst (ps ! k) (drop position text) = None"
    by (simp add: first_match_None)
  from try_patterns_none [OF this] None show ?thesis by simp
next
  case (Some r)
  obtain k n where r: "r = (k, n)" by (cases r)
  from Some r have "k < length ps \<and> fst (ps ! k) (drop position text) = Some n
      \<and> (\<forall>j<k. fst (ps ! j) (drop position text) = None)"
    by (simp add: first_match_Some)
  then have "try_patterns ps text position
     = Some (case snd (ps ! k) of
               Some f \<Rightarrow> [f (take n (drop position text)) (int position)]
             | None \<Rightarrow> [],
             position + n)"
    by (intro try_patterns_first) simp_all
  with Some r show ?thesis by simp
qed

lemma tokenize_loop_specified:
  "position \<le> length text \<Longrightarrow>
     tokenize_loop U self text position tokens
       = (tokens @ specified_scan U self text position, length text)"
proof (induction U self "text" position tokens rule: tokenize_loop.induct)
  case (1 U self tx p0 toks0)
  show ?case
  proof (cases "p0 < length tx")
    case False
    with "1.prems" show ?thesis
      by (subst tokenize_loop.simps, subst specified_scan.simps) simp
  next
    case True
    show ?thesis
    proof (cases "first_match (build_token_patterns U self) (drop p0 tx)")
      case None
      then have t: "try_patterns (build_token_patterns U self) tx p0 = None"
        by (simp add: try_patterns_first_match)
      from True have "p0 + 1 \<le> length tx" by simp
      from "1.IH"(1) [OF True t this] True t None show ?thesis
        by (simp add: tokenize_loop.simps [of U self tx p0] specified_scan.simps [of U self tx p0])
    next
      case (Some r)
      obtain k n where r: "r = (k, n)" by (cases r)
      let ?emitted = "case snd (build_token_patterns U self ! k) of
                        Some f \<Rightarrow> [f (take n (drop p0 tx)) (int p0)]
                      | None \<Rightarrow> []"
      from Some r have t: "try_patterns (build_token_patterns U self) tx p0 = Some (?emitted, p0 + n)"
        by (simp add: try_patterns_first_match)
      from Some r first_match_bounds [of U self "drop p0 tx" k n] True
      have "p0 + n \<le> length tx" by (simp; linarith)
      from "1.IH"(2) [OF True t refl this] True t Some r show ?thesis
        by (simp add: tokenize_loop.simps [of U self tx p0] specified_scan.simps [of U self tx p0])
    qed
  qed
qed

text \<open>
  C1.  The patterns are the eight of the declared list, in that order.  The first
  match of a pattern list is the match of the pattern with the least index that
  matches.  tokenize returns, for every text, the tokens of the specified scan of the
  normalised text from position 0, followed by the EOF token at the length of that
  text; the loop of tokenize, started at a position with some tokens, returns them
  followed by the tokens of the specified scan from that position, and the length of
  the text.  The specified scan yields nothing at the end of the text; inside the
  text, at a first match of n characters, n is positive, the match ends inside the
  text, and the scan yields the token of that pattern (nothing for white space,
  whose token function is None) and goes on at the end of the match; with no match
  it goes on one character further.
\<close>

theorem C1_tokenize_first_match:
  "build_token_patterns U self =
           [(re_word, Some (identify_word U self)),
            (re_float U, Some (Token ''FLOAT'')),
            (re_integer U, Some (Token ''INTEGER'')),
            (re_operator, Some (Token ''OPERATOR'')),
            (re_delimiter, Some (Token ''DELIMITER'')),
            (re_string 34, Some (Token ''STRING'')),
            (re_string 39, Some (Token ''STRING'')),
            (re_whitespace, None)]
   \<and> (first_match ps r = Some (k, n) \<longleftrightarrow>
         k < length ps \<and> fst (ps ! k) r = Some n \<and> (\<forall>j<k. fst (ps ! j) r = None))
   \<and> (first_match ps r = None \<longleftrightarrow> (\<forall>k<length ps. fst (ps ! k) r = None))
   \<and> tokenize U self text0
       = specified_scan U self (normalize_text U text0) 0
         @ [Token ''EOF'' [] (int (length (normalize_text U text0)))]
   \<and> (position \<le> length text \<longrightarrow>
         tokenize_loop U self text position tokens
           = (tokens @ specified_scan U self text position, length text))
   \<and> (length text \<le> position \<longrightarrow> specified_scan U self text position = [])
   \<and> (position < length text
         \<and> first_match (build_token_patterns U self) (drop position text) = Some (k, n) \<longrightarrow>
         0 < n \<and> position + n \<le> length text
         \<and> specified_scan U self text position
             = (case snd (build_token_patterns U self ! k) of
                  Some f \<Rightarrow> [f (take n (drop position text)) (int position)]
                | None \<Rightarrow> [])
               @ specified_scan U self text (position + n))
   \<and> (position < length text
         \<and> first_match (build_token_patterns U self) (drop position text) = None \<longrightarrow>
         specified_scan U self text position = specified_scan U self text (position + 1))"
proof (intro conjI impI)
  show "build_token_patterns U self =
           [(re_word, Some (identify_word U self)),
            (re_float U, Some (Token ''FLOAT'')),
            (re_integer U, Some (Token ''INTEGER'')),
            (re_operator, Some (Token ''OPERATOR'')),
            (re_delimiter, Some (Token ''DELIMITER'')),
            (re_string 34, Some (Token ''STRING'')),
            (re_string 39, Some (Token ''STRING'')),
            (re_whitespace, None)]"
    by (simp add: build_token_patterns_def)
  show "first_match ps r = Some (k, n) \<longleftrightarrow>
         k < length ps \<and> fst (ps ! k) r = Some n \<and> (\<forall>j<k. fst (ps ! j) r = None)"
    by (rule first_match_Some)
  show "first_match ps r = None \<longleftrightarrow> (\<forall>k<length ps. fst (ps ! k) r = None)"
    by (rule first_match_None)
  show "tokenize U self text0
       = specified_scan U self (normalize_text U text0) 0
         @ [Token ''EOF'' [] (int (length (normalize_text U text0)))]"
    using tokenize_loop_specified [of 0 "normalize_text U text0" U self "[]"]
    by (simp add: tokenize_def Let_def)
  show "tokenize_loop U self text position tokens
           = (tokens @ specified_scan U self text position, length text)"
    if "position \<le> length text"
    using that by (rule tokenize_loop_specified)
  show "specified_scan U self text position = []" if "length text \<le> position"
    using that by (simp add: specified_scan.simps [of U self "text" position])
next
  assume a: "position < length text
         \<and> first_match (build_token_patterns U self) (drop position text) = Some (k, n)"
  from a first_match_bounds [of U self "drop position text" k n]
  have b: "0 < n" "n \<le> length text - position" by simp_all
  from b(1) show "0 < n" .
  from a b(2) show "position + n \<le> length text" by linarith
  from a show "specified_scan U self text position
             = (case snd (build_token_patterns U self ! k) of
                  Some f \<Rightarrow> [f (take n (drop position text)) (int position)]
                | None \<Rightarrow> [])
               @ specified_scan U self text (position + n)"
    by (simp add: specified_scan.simps [of U self "text" position])
next
  assume a: "position < length text
         \<and> first_match (build_token_patterns U self) (drop position text) = None"
  then show "specified_scan U self text position = specified_scan U self text (position + 1)"
    by (simp add: specified_scan.simps [of U self "text" position])
qed

lemma normalize_x_question: "normalize_text ascii_only (u ''x ?'') = u ''x ?''"
  by (simp add: normalize_text_def str_lower_def ascii_lower_def re_w_def ascii_word_def
        ascii_letter_def ascii_digit_def isspace_def kept_punctuation_def str_strip_def Let_def
        sub_spaces.simps)

lemma upt_8: "[0..<8] = [0, 1, 2, 3, 4, 5, 6, 7 :: nat]"
  by (simp add: upt_rec)

lemma first_match_x_question:
  "first_match (build_token_patterns ascii_only (LexicalAnalyzer None None)) (drop 0 (u ''x ?'')) = Some (0, 1)"
  "first_match (build_token_patterns ascii_only (LexicalAnalyzer None None)) (drop 1 (u ''x ?'')) = Some (7, 1)"
  "first_match (build_token_patterns ascii_only (LexicalAnalyzer None None)) (drop 2 (u ''x ?'')) = None"
  by (simp_all add: first_match_def build_token_patterns_def upt_8 re_word_def re_float_def
        re_integer_def re_operator_def re_delimiter_def re_string_def re_whitespace_def
        re_d_def ascii_word_def ascii_letter_def ascii_digit_def isspace_def Let_def)

theorem C1_witness:
  "first_match (build_token_patterns ascii_only (LexicalAnalyzer None None)) (drop 0 (u ''x ?'')) = Some (0, 1)
   \<and> first_match (build_token_patterns ascii_only (LexicalAnalyzer None None)) (drop 1 (u ''x ?'')) = Some (7, 1)
   \<and> first_match (build_token_patterns ascii_only (LexicalAnalyzer None None)) (drop 2 (u ''x ?'')) = None
   \<and> specified_scan ascii_only (LexicalAnalyzer None None) (u ''x ?'') 0 = [Token ''IDENTIFIER'' (u ''x'') 0]
   \<and> tokenize_loop ascii_only (LexicalAnalyzer None None) (u ''x ?'') 0 []
       = ([Token ''IDENTIFIER'' (u ''x'') 0], 3)
   \<and> tokenize ascii_only (LexicalAnalyzer None None) (u ''x ?'')
       = [Token ''IDENTIFIER'' (u ''x'') 0, Token ''EOF'' [] 3]"
proof -
  let ?U = ascii_only and ?L = "LexicalAnalyzer None None" and ?t = "u ''x ?''"
  note a = C1_tokenize_first_match [of ?U ?L undefined undefined 0 1 ?t 0 ?t "[]"]
  note b = C1_tokenize_first_match [of ?U ?L undefined undefined 7 1 ?t 1 ?t "[]"]
  note c = C1_tokenize_first_match [of ?U ?L undefined undefined 0 0 ?t 2 ?t "[]"]
  note d = C1_tokenize_first_match [of ?U ?L undefined undefined 0 0 ?t 3 ?t "[]"]
  have w: "identify_word ?U ?L (u ''x'') 0 = Token ''IDENTIFIER'' (u ''x'') 0"
    by (simp add: identify_word_def str_lower_def ascii_lower_def python_keywords_def
          LexicalAnalyzer_def KEYWORD_MAPPING_def SPECIAL_TOKENS_def)
  have len: "length ?t = 3" by simp
  from d len have s3: "specified_scan ?U ?L ?t 3 = []" by simp
  from c first_match_x_question(3) len
  have "specified_scan ?U ?L ?t 2 = specified_scan ?U ?L ?t (2 + 1)" by simp
  moreover have "(2 :: nat) + 1 = 3" by simp
  ultimately have s2: "specified_scan ?U ?L ?t 2 = []" using s3 by (simp only:)
  from b first_match_x_question(2) len
  have "specified_scan ?U ?L ?t 1
          = (case snd (build_token_patterns ?U ?L ! 7) of
               Some f \<Rightarrow> [f (take 1 (drop 1 ?t)) (int 1)]
             | None \<Rightarrow> [])
            @ specified_scan ?U ?L ?t (1 + 1)"
    by simp
  moreover have "(1 :: nat) + 1 = 2" by simp
  moreover have "snd (build_token_patterns ?U ?L ! 7) = None" by (simp add: build_token_patterns_def)
  ultimately have s1: "specified_scan ?U ?L ?t 1 = []" using s2 by (simp only: option.case append_Nil)
  from a first_match_x_question(1) len
  have "specified_scan ?U ?L ?t 0
          = (case snd (build_token_patterns ?U ?L ! 0) of
               Some f \<Rightarrow> [f (take 1 (drop 0 ?t)) (int 0)]
             | None \<Rightarrow> [])
            @ specified_scan ?U ?L ?t (0 + 1)"
    by simp
  moreover have "(0 :: nat) + 1 = 1" by simp
  moreover have "snd (build_token_patterns ?U ?L ! 0) = Some (identify_word ?U ?L)"
    by (simp add: build_token_patterns_def)
  moreover have "take 1 (drop 0 ?t) = u ''x''" "int 0 = 0" by simp_all
  ultimately have s0: "specified_scan ?U ?L ?t 0 = [Token ''IDENTIFIER'' (u ''x'') 0]"
    using s1 w by (simp only: option.case append_Nil2)
  from a len have "tokenize_loop ?U ?L ?t 0 [] = ([] @ specified_scan ?U ?L ?t 0, length ?t)" by simp
  with s0 len have l: "tokenize_loop ?U ?L ?t 0 [] = ([Token ''IDENTIFIER'' (u ''x'') 0], 3)" by simp
  from a have "tokenize ?U ?L ?t
       = specified_scan ?U ?L (normalize_text ?U ?t) 0
         @ [Token ''EOF'' [] (int (length (normalize_text ?U ?t)))]"
    by blast
  then have "tokenize ?U ?L ?t
       = specified_scan ?U ?L ?t 0 @ [Token ''EOF'' [] (int (length ?t))]"
    by (simp only: normalize_x_question)
  with s0 have t: "tokenize ?U ?L ?t = [Token ''IDENTIFIER'' (u ''x'') 0, Token ''EOF'' [] 3]"
    by simp
  from first_match_x_question s0 l t show ?thesis by simp
qed

lemma tokenize_loop_invariant:
  "(\<forall>pos emitted e. pos < length text \<longrightarrow>
       try_patterns (build_token_patterns U self) text pos = Some (emitted, e) \<longrightarrow>
       (\<forall>t \<in> set emitted. Q pos t)) \<Longrightarrow>
   (\<forall>t \<in> set tokens. \<exists>pos < length text. Q pos t) \<Longrightarrow>
   \<forall>t \<in> set (fst (tokenize_loop U self text position tokens)). \<exists>pos < length text. Q pos t"
proof (induction U self "text" position tokens rule: tokenize_loop.induct)
  case (1 U self tx p0 toks0)
  show ?case
  proof (cases "p0 < length tx")
    case False
    with "1.prems" show ?thesis by (subst tokenize_loop.simps) simp
  next
    case True
    show ?thesis
    proof (cases "try_patterns (build_token_patterns U self) tx p0")
      case None
      from "1.IH"(1) [OF True None] "1.prems" True None show ?thesis
        by (subst tokenize_loop.simps) simp
    next
      case (Some r)
      obtain emitted match_end where r: "r = (emitted, match_end)" by (cases r)
      from "1.prems"(1) True Some r have "\<forall>t \<in> set emitted. Q p0 t" by blast
      with "1.prems"(2) True have "\<forall>t \<in> set (toks0 @ emitted). \<exists>pos < length tx. Q pos t" by auto
      from "1.IH"(2) [OF True Some r [symmetric] "1.prems"(1) this] True Some r show ?thesis
        by (subst tokenize_loop.simps) simp
    qed
  qed
qed

lemma special_token_type_key:
  "special_token_type items word = Some ty \<Longrightarrow> \<exists>words. (ty, words) \<in> set items \<and> word \<in> set words"
  by (induction items word rule: special_token_type.induct) (auto split: if_splits)

lemma identify_word_type:
  "tok_type (identify_word U self m p) = ''KEYWORD''
   \<or> tok_type (identify_word U self m p) = ''IDENTIFIER''
   \<or> (\<exists>words. (tok_type (identify_word U self m p), words) \<in> set (special_tokens self)
         \<and> tok_value (identify_word U self m p) \<in> set words)"
  by (auto simp: identify_word_def Let_def Token_def split: option.splits
        dest: special_token_type_key)

lemma try_patterns_emitted:
  "try_patterns ps text pos = Some (emitted, e) \<Longrightarrow> t \<in> set emitted \<Longrightarrow>
     \<exists>regex f n. (regex, Some f) \<in> set ps \<and> regex (drop pos text) = Some n
        \<and> t = f (take n (drop pos text)) (int pos) \<and> e = pos + n"
proof (induction ps)
  case Nil
  then show ?case by simp
next
  case (Cons p ps)
  obtain regex token_func where p: "p = (regex, token_func)" by (cases p)
  show ?case
  proof (cases "regex (drop pos text)")
    case None
    with Cons p show ?thesis by auto
  next
    case (Some n)
    with Cons.prems p obtain a where a: "token_func = Some a"
        "t = a (take n (drop pos text)) (int pos)" "e = pos + n"
      by (cases token_func) auto
    from a p Some show ?thesis
      by (intro exI [of _ regex] exI [of _ a] exI [of _ n]) simp
  qed
qed

lemma emitted_cases:
  assumes "try_patterns (build_token_patterns U self) text pos = Some (emitted, e)"
    and "t \<in> set emitted"
  obtains (word) n where "re_word (drop pos text) = Some n"
      "t = identify_word U self (take n (drop pos text)) (int pos)"
    | (float) n where "t = Token ''FLOAT'' (take n (drop pos text)) (int pos)"
    | (integer) n where "t = Token ''INTEGER'' (take n (drop pos text)) (int pos)"
    | (operator) n where "re_operator (drop pos text) = Some n"
      "t = Token ''OPERATOR'' (take n (drop pos text)) (int pos)"
    | (delimiter) n where "re_delimiter (drop pos text) = Some n"
      "t = Token ''DELIMITER'' (take n (drop pos text)) (int pos)"
    | (string) q n where "q = 34 \<or> q = 39" "re_string q (drop pos text) = Some n"
      "t = Token ''STRING'' (take n (drop pos text)) (int pos)"
proof -
  from try_patterns_emitted [OF assms]
  obtain regex f n where m: "(regex, Some f) \<in> set (build_token_patterns U self)"
      "regex (drop pos text) = Some n" "t = f (take n (drop pos text)) (int pos)"
    by blast
  from m(1) have "(regex, f) \<in> {(re_word, identify_word U self), (re_float U, Token ''FLOAT''),
      (re_integer U, Token ''INTEGER''), (re_operator, Token ''OPERATOR''),
      (re_delimiter, Token ''DELIMITER''), (re_string 34, Token ''STRING''),
      (re_string 39, Token ''STRING'')}"
    unfolding build_token_patterns_def by simp
  then consider "regex = re_word \<and> f = identify_word U self"
    | "f = Token ''FLOAT''" | "f = Token ''INTEGER''"
    | "regex = re_operator \<and> f = Token ''OPERATOR''"
    | "regex = re_delimiter \<and> f = Token ''DELIMITER''"
    | "regex = re_string 34 \<and> f = Token ''STRING''"
    | "regex = re_string 39 \<and> f = Token ''STRING''"
    by blast
  then show thesis
  proof cases
    case 1 with m word show ?thesis by blast
  next
    case 2 with m float show ?thesis by blast
  next
    case 3 with m integer show ?thesis by blast
  next
    case 4 with m operator show ?thesis by blast
  next
    case 5 with m delimiter show ?thesis by blast
  next
    case 6 with m string [of 34] show ?thesis by blast
  next
    case 7 with m string [of 39] show ?thesis by blast
  qed
qed

lemma emitted_types:
  assumes "try_patterns (build_token_patterns U self) text pos = Some (emitted, e)"
    and "t \<in> set emitted"
  shows "tok_type t \<in> {''KEYWORD'', ''IDENTIFIER'', ''FLOAT'', ''INTEGER'', ''OPERATOR'', ''DELIMITER'', ''STRING''}
         \<or> tok_type t \<in> fst ` set (special_tokens self)"
  using assms
proof (cases rule: emitted_cases)
  case (word n)
  with identify_word_type [of U self "take n (drop pos text)" "int pos"] show ?thesis
    by force
qed (simp_all add: Token_def)

lemma default_special_token_keys:
  "fst ` set (special_tokens (LexicalAnalyzer None None))
     = {''VARIABLE'', ''FUNCTION'', ''LOOP'', ''CONDITION'', ''OPERATOR'', ''DATA_TYPE''}"
  by (simp add: LexicalAnalyzer_def SPECIAL_TOKENS_def)

lemma tokenize_loop_no_EOF:
  assumes "''EOF'' \<notin> fst ` set (special_tokens self)"
  shows "\<forall>t \<in> set (fst (tokenize_loop U self text 0 [])). tok_type t \<noteq> ''EOF''"
proof -
  have "\<forall>t \<in> set (fst (tokenize_loop U self text 0 [])). \<exists>pos < length text. tok_type t \<noteq> ''EOF''"
  proof (rule tokenize_loop_invariant [where Q = "\<lambda>pos t. tok_type t \<noteq> ''EOF''"])
    show "\<forall>pos emitted e. pos < length text \<longrightarrow>
       try_patterns (build_token_patterns U self) text pos = Some (emitted, e) \<longrightarrow>
       (\<forall>t \<in> set emitted. tok_type t \<noteq> ''EOF'')"
    proof (intro allI impI ballI)
      fix pos emitted e t
      assume tp: "try_patterns (build_token_patterns U self) text pos = Some (emitted, e)"
        and t: "t \<in> set emitted"
      from emitted_types [OF tp t] assms show "tok_type t \<noteq> ''EOF''" by force
    qed
  qed simp
  then show ?thesis by blast
qed

text \<open>
  C7.  For every input string the token list of tokenize (default tables) is some
  tokens, none of type EOF, followed by one EOF token with the empty string as its
  value: EOF is the last token and occurs exactly once.
\<close>

theorem C7_tokenize_ends_with_single_EOF:
  "\<exists>toks p. tokenize U (LexicalAnalyzer None None) text = toks @ [Token ''EOF'' [] p]
      \<and> ''EOF'' \<notin> tok_type ` set toks
      \<and> last (tokenize U (LexicalAnalyzer None None) text) = Token ''EOF'' [] p
      \<and> length (filter (\<lambda>t. tok_type t = ''EOF'') (tokenize U (LexicalAnalyzer None None) text)) = 1"
proof -
  let ?L = "LexicalAnalyzer None None"
  let ?r = "tokenize_loop U ?L (normalize_text U text) 0 []"
  have "''EOF'' \<notin> fst ` set (special_tokens ?L)"
    by (simp add: default_special_token_keys)
  then have no: "\<forall>t \<in> set (fst ?r). tok_type t \<noteq> ''EOF''" by (rule tokenize_loop_no_EOF)
  have t: "tokenize U ?L text = fst ?r @ [Token ''EOF'' [] (int (snd ?r))]"
    by (simp add: tokenize_def Let_def case_prod_unfold)
  from no have f: "filter (\<lambda>t. tok_type t = ''EOF'') (fst ?r) = []"
    by (simp add: filter_empty_conv)
  from no have "''EOF'' \<notin> tok_type ` set (fst ?r)" by auto
  with t f show ?thesis by (simp add: Token_def)
qed

section \<open>Lexer output as parser input\<close>

lemma set_sub_spaces: "set (sub_spaces s) \<subseteq> insert 32 (set s)"
proof (induction s rule: sub_spaces.induct)
  case 1
  show ?case by simp
next
  case (2 c cs)
  have "set (dropWhile isspace cs) \<subseteq> set cs" by (rule set_dropWhileD [THEN subsetI])
  with 2 show ?case by auto
qed

lemma set_str_strip: "set (str_strip s) \<subseteq> set s"
proof -
  have "set (dropWhile isspace (rev (dropWhile isspace s))) \<subseteq> set (rev (dropWhile isspace s))"
    by (rule set_dropWhileD [THEN subsetI])
  moreover have "set (dropWhile isspace s) \<subseteq> set s" by (rule set_dropWhileD [THEN subsetI])
  ultimately show ?thesis by (auto simp: str_strip_def)
qed

lemma removed_character_not_kept:
  "removed_character c \<Longrightarrow> \<not> re_w U c \<and> \<not> isspace c \<and> c \<notin> set kept_punctuation \<and> c \<noteq> 32"
  by (auto simp: removed_character_def re_w_def ascii_word_def ascii_letter_def ascii_digit_def
        isspace_def kept_punctuation_def)

lemma normalize_text_removes:
  "c \<in> set (normalize_text U text) \<Longrightarrow> \<not> removed_character c"
proof
  assume c: "c \<in> set (normalize_text U text)" and r: "removed_character c"
  let ?f = "filter (\<lambda>c. re_w U c \<or> isspace c \<or> c \<in> set kept_punctuation) (str_lower U text)"
  from c have "c \<in> set (sub_spaces ?f)"
    using set_str_strip [of "sub_spaces ?f"] by (auto simp: normalize_text_def Let_def)
  with set_sub_spaces [of ?f] have "c = 32 \<or> c \<in> set ?f" by auto
  with removed_character_not_kept [OF r, of U] show False by auto
qed

lemma default_word_token:
  "from_normalized (identify_word U (LexicalAnalyzer None None) m p)"
proof -
  let ?t = "identify_word U (LexicalAnalyzer None None) m p"
  from identify_word_type [of U "LexicalAnalyzer None None" m p]
  consider "tok_type ?t = ''KEYWORD''" | "tok_type ?t = ''IDENTIFIER''"
    | words where "(tok_type ?t, words) \<in> set SPECIAL_TOKENS" "tok_value ?t \<in> set words"
    by (auto simp: LexicalAnalyzer_def)
  then show ?thesis
  proof cases
    case 1 then show ?thesis by (simp add: from_normalized_def)
  next
    case 2 then show ?thesis by (simp add: from_normalized_def)
  next
    case 3
    from 3(1) have "tok_type ?t \<in> {''VARIABLE'', ''FUNCTION'', ''LOOP'', ''CONDITION'', ''DATA_TYPE''}
        \<or> (tok_type ?t = ''OPERATOR'' \<and> words = operator_words)"
      by (auto simp: SPECIAL_TOKENS_def operator_words_def)
    with 3(2) show ?thesis by (auto simp: from_normalized_def)
  qed
qed

lemma drop_head_in_set: "drop pos text = c # cs \<Longrightarrow> c \<in> set text"
  by (metis in_set_dropD list.set_intros(1))

lemma drop_second_in_set: "drop pos text = c # d # cs \<Longrightarrow> d \<in> set text"
  by (metis in_set_dropD list.set_intros(1) list.set_intros(2))

lemma emitted_from_normalized:
  assumes clean: "\<forall>c \<in> set text. \<not> removed_character c"
    and tp: "try_patterns (build_token_patterns U (LexicalAnalyzer None None)) text pos = Some (emitted, e)"
    and t: "t \<in> set emitted"
  shows "from_normalized t"
  using tp t
proof (cases rule: emitted_cases)
  case (word n)
  then show ?thesis by (simp add: default_word_token)
next
  case (float n)
  then show ?thesis by (simp add: from_normalized_def Token_def)
next
  case (integer n)
  then show ?thesis by (simp add: from_normalized_def Token_def)
next
  case (operator n)
  from operator(1) obtain c cs where d: "drop pos text = c # cs" and c: "c \<in> set (u ''+-*/=<>!'')"
    by (auto simp: re_operator_def split: list.splits if_splits)
  from drop_head_in_set [OF d] clean have "\<not> removed_character c" by blast
  with c have c33: "c = 33" by (auto simp: removed_character_def)
  have "n = 1"
  proof (cases cs)
    case Nil
    with operator(1) d c show ?thesis by (simp add: re_operator_def)
  next
    case (Cons x xs)
    with d drop_second_in_set [of pos "text" c x xs] clean have "\<not> removed_character x" by blast
    then have "x \<noteq> 61" by (auto simp: removed_character_def)
    with operator(1) d c Cons show ?thesis by (simp add: re_operator_def)
  qed
  with operator(2) d c33 show ?thesis by (simp add: from_normalized_def Token_def)
next
  case (delimiter n)
  from delimiter(1) obtain c cs where d: "drop pos text = c # cs" and c: "c \<in> set (u ''()[]{},;:'')"
      and n: "n = 1"
    by (auto simp: re_delimiter_def split: list.splits if_splits)
  from drop_head_in_set [OF d] clean have "\<not> removed_character c" by blast
  with c have "c = 44 \<or> c = 59 \<or> c = 58" by (auto simp: removed_character_def)
  with delimiter(2) d n show ?thesis by (auto simp: from_normalized_def Token_def)
next
  case (string q n)
  from string(2) obtain cs where d: "drop pos text = q # cs"
    by (auto simp: re_string_def split: list.splits if_splits)
  from drop_head_in_set [OF d] clean have "\<not> removed_character q" by blast
  with string(1) show ?thesis by (auto simp: removed_character_def)
qed

lemma tokenize_from_normalized:
  "t \<in> set (tokenize U (LexicalAnalyzer None None) text) \<Longrightarrow> from_normalized t"
proof -
  let ?L = "LexicalAnalyzer None None"
  let ?n = "normalize_text U text"
  assume t: "t \<in> set (tokenize U ?L text)"
  have clean: "\<forall>c \<in> set ?n. \<not> removed_character c"
    using normalize_text_removes by blast
  have "\<forall>t \<in> set (fst (tokenize_loop U ?L ?n 0 [])). \<exists>pos < length ?n. from_normalized t"
  proof (rule tokenize_loop_invariant [where Q = "\<lambda>pos t. from_normalized t"])
    show "\<forall>pos emitted e. pos < length ?n \<longrightarrow>
       try_patterns (build_token_patterns U ?L) ?n pos = Some (emitted, e) \<longrightarrow>
       (\<forall>t \<in> set emitted. from_normalized t)"
      using emitted_from_normalized [OF clean] by blast
  qed simp
  moreover have "from_normalized (Token ''EOF'' [] p)" for p
    by (simp add: from_normalized_def Token_def)
  ultimately show ?thesis using t
    by (auto simp: tokenize_def Let_def case_prod_unfold)
qed

lemma operator_words_plain:
  "w \<in> set operator_words \<Longrightarrow> set w \<inter> set (u ''=+-*/<>'') = {}"
  by (auto simp: operator_words_def)

lemma current_token_cases:
  "current_token ts i \<in> set ts \<or> current_token ts i = Token ''EOF'' [] (- 1)"
  by (simp add: current_token_def)

lemma peek_next_token_cases:
  "peek_next_token ts i \<in> set ts \<or> peek_next_token ts i = Token ''EOF'' [] (- 1)"
  by (simp add: peek_next_token_def)

text \<open>
  C9.  Whatever the input, no token of tokenize (default tables) has type STRING; a
  token of type OPERATOR has the value "!" or one of the operator words of the
  special tokens, so its value contains none of = + - * / < >; a token of type
  DELIMITER is never one of the brackets.  Hence at no cursor position does the
  parser's assignment lookahead hold, and at none is the current token the
  DELIMITER "(" that makes an identifier a function call.
\<close>

theorem C9_tokenize_never_yields_removed_symbols:
  "(\<forall>t \<in> set (tokenize U (LexicalAnalyzer None None) text).
       tok_type t \<noteq> ''STRING''
       \<and> (tok_type t = ''OPERATOR'' \<longrightarrow>
            set (tok_value t) \<inter> set (u ''=+-*/<>'') = {}
            \<and> (tok_value t = u ''!'' \<or> tok_value t \<in> set operator_words))
       \<and> (tok_type t = ''DELIMITER'' \<longrightarrow>
            tok_value t \<notin> set (map u [''('', '')'', ''['', '']'', ''{'', ''}''])))
   \<and> (\<forall>i. \<not> assignment_ahead (tokenize U (LexicalAnalyzer None None) text) i)
   \<and> (\<forall>i. \<not> is_delimiter ''('' (current_token (tokenize U (LexicalAnalyzer None None) text) i))"
proof (intro conjI ballI allI)
  let ?ts = "tokenize U (LexicalAnalyzer None None) text"
  fix t assume t: "t \<in> set ?ts"
  from tokenize_from_normalized [OF t] show "tok_type t \<noteq> ''STRING''"
    by (simp add: from_normalized_def)
  from tokenize_from_normalized [OF t]
  show "tok_type t = ''OPERATOR'' \<longrightarrow>
            set (tok_value t) \<inter> set (u ''=+-*/<>'') = {}
            \<and> (tok_value t = u ''!'' \<or> tok_value t \<in> set operator_words)"
    using operator_words_plain [of "tok_value t"] by (auto simp: from_normalized_def)
  from tokenize_from_normalized [OF t]
  show "tok_type t = ''DELIMITER'' \<longrightarrow>
            tok_value t \<notin> set (map u [''('', '')'', ''['', '']'', ''{'', ''}''])"
    by (auto simp: from_normalized_def)
next
  let ?ts = "tokenize U (LexicalAnalyzer None None) text"
  fix i
  show "\<not> assignment_ahead ?ts i"
  proof
    assume a: "assignment_ahead ?ts i"
    then have ty: "tok_type (peek_next_token ?ts i) = ''OPERATOR''"
      and v: "tok_value (peek_next_token ?ts i) = u ''=''"
      by (simp_all add: assignment_ahead_def)
    from ty peek_next_token_cases [of ?ts i] have "peek_next_token ?ts i \<in> set ?ts"
      by (auto simp: Token_def)
    from tokenize_from_normalized [OF this] ty v show False
      by (auto simp: from_normalized_def operator_words_def)
  qed
next
  let ?ts = "tokenize U (LexicalAnalyzer None None) text"
  fix i
  show "\<not> is_delimiter ''('' (current_token ?ts i)"
  proof
    assume a: "is_delimiter ''('' (current_token ?ts i)"
    then have ty: "tok_type (current_token ?ts i) = ''DELIMITER''"
      and v: "tok_value (current_token ?ts i) = u ''(''"
      by (simp_all add: is_delimiter_def)
    from ty current_token_cases [of ?ts i] have "current_token ?ts i \<in> set ?ts"
      by (auto simp: Token_def)
    from tokenize_from_normalized [OF this] ty v show False
      by (auto simp: from_normalized_def)
  qed
qed

lemma normalize_example: "normalize_text ascii_only (u ''x=!'') = u ''x!''"
  by (simp add: normalize_text_def str_lower_def ascii_lower_def re_w_def ascii_word_def
        ascii_letter_def ascii_digit_def isspace_def kept_punctuation_def str_strip_def Let_def)

lemma tokenize_example:
  "tokenize ascii_only (LexicalAnalyzer None None) (u ''x=!'')
     = [Token ''IDENTIFIER'' (u ''x'') 0, Token ''OPERATOR'' (u ''!'') 1, Token ''EOF'' [] 2]"
  unfolding tokenize_def normalize_example
  by (simp add: tokenize_loop.simps build_token_patterns_def re_word_def re_float_def
        re_integer_def re_operator_def re_delimiter_def re_string_def re_whitespace_def
        re_d_def ascii_word_def ascii_letter_def ascii_digit_def isspace_def
        identify_word_def str_lower_def ascii_lower_def python_keywords_def
        LexicalAnalyzer_def KEYWORD_MAPPING_def SPECIAL_TOKENS_def Let_def)

theorem C9_witness:
  "Token ''OPERATOR'' (u ''!'') 1 \<in> set (tokenize ascii_only (LexicalAnalyzer None None) (u ''x=!''))
   \<and> set (u ''!'') \<inter> set (u ''=+-*/<>'') = {}
   \<and> \<not> assignment_ahead (tokenize ascii_only (LexicalAnalyzer None None) (u ''x=!'')) 0
   \<and> \<not> is_delimiter ''('' (current_token (tokenize ascii_only (LexicalAnalyzer None None) (u ''x=!'')) 1)"
proof -
  have m: "Token ''OPERATOR'' (u ''!'') 1 \<in> set (tokenize ascii_only (LexicalAnalyzer None None) (u ''x=!''))"
    unfolding tokenize_example by simp
  from C9_tokenize_never_yields_removed_symbols [of ascii_only "u ''x=!''"] m
  show ?thesis by (auto simp: Token_def)
qed


section \<open>Properties of the parser\<close>

lemma parse_expression_blocks:
  "parse_expression frames tokens i = Inr (n, j) \<Longrightarrow> blocks_single n"
  "parse_arguments frames tokens i args = Inr (as, j) \<Longrightarrow> \<forall>a \<in> set args. blocks_single a \<Longrightarrow>
     \<forall>a \<in> set as. blocks_single a"
proof (induct frames tokens i and frames tokens i args arbitrary: n j and as j
       rule: parse_expression_parse_arguments.induct)
  case (1 frames tokens i)
  from "1.prems" "1.hyps" show ?case
    unfolding parse_expression.simps [of frames tokens i] Let_def
    by (auto split: if_splits sum.splits prod.splits)
next
  case (2 frames tokens i args)
  from "2.prems" "2.hyps" show ?case
    unfolding parse_arguments.simps [of frames tokens i args]
    by (auto split: if_splits sum.splits prod.splits)
qed

lemma parse_expression_statement_blocks:
  "parse_expression_statement frames tokens i = Inr (n, j) \<Longrightarrow> blocks_single n"
  by (auto simp: parse_expression_statement_def Let_def split: if_splits sum.splits
        dest: parse_expression_blocks(1))

lemma parse_parameters_blocks:
  "parse_parameters tokens i params = (ps, j) \<Longrightarrow> \<forall>p \<in> set params. blocks_single p \<Longrightarrow>
     \<forall>p \<in> set ps. blocks_single p"
proof (induction tokens i params arbitrary: ps j rule: parse_parameters.induct)
  case (1 tokens i params)
  from "1.prems" "1.IH" show ?case
    unfolding parse_parameters.simps [of tokens i params] Let_def
    by (auto split: if_splits)
qed

lemma function_header_blocks:
  assumes "function_header tokens i = (name_value, params, i5)"
  shows "\<forall>p \<in> set params. blocks_single p"
proof -
  define i3 where "i3 = consume_if_delimiter ''('' tokens (i + 2)"
  define pr where "pr = (if \<not> is_delimiter '')'' (current_token tokens i3)
                          then parse_parameters tokens i3 [] else ([], i3))"
  have "\<forall>p \<in> set (fst pr). blocks_single p"
    unfolding pr_def using parse_parameters_blocks [of tokens i3 "[]"]
    by (cases "parse_parameters tokens i3 []") auto
  moreover from assms have "params = fst pr"
    unfolding function_header_def Let_def case_prod_unfold i3_def pr_def by auto
  ultimately show ?thesis by simp
qed

lemma parse_statement_blocks:
  "parse_statement frames tokens i = Inr (n, j) \<Longrightarrow> blocks_single n"
  "parse_function_definition frames tokens i = Inr (n, j) \<Longrightarrow> blocks_single n"
  "parse_if_statement frames tokens i = Inr (n, j) \<Longrightarrow> blocks_single n"
  "parse_loop frames tokens i = Inr (n, j) \<Longrightarrow> blocks_single n"
  "parse_block frames tokens i = Inr (n, j) \<Longrightarrow> blocks_single n"
proof (induct frames tokens i and frames tokens i and frames tokens i and frames tokens i
         and frames tokens i
       arbitrary: n j and n j and n j and n j and n j
       rule: parse_statement_parse_function_definition_parse_if_statement_parse_loop_parse_block.induct)
  case (1 frames tokens i)
  from "1.prems" "1.hyps" show ?case
    unfolding parse_statement.simps [of frames tokens i] Let_def
    by (auto split: if_splits dest: parse_expression_statement_blocks)
next
  case (2 frames tokens i)
  from "2.prems" have f: "frames \<noteq> 0"
    unfolding parse_function_definition.simps [of frames tokens i] by (auto split: if_splits)
  obtain name_value params i5 where h: "function_header tokens i = (name_value, params, i5)"
    by (cases "function_header tokens i") auto
  from "2.prems" f h obtain b where b: "parse_block (frames - 1) tokens i5 = Inr (b, j)"
      and n: "n = ASTNode ''FUNCTION_DEF'' (Some name_value) [ASTNode ''PARAMETERS'' None params, b]"
    unfolding parse_function_definition.simps [of frames tokens i]
    by (auto split: sum.splits)
  from "2.hyps" [OF f h [symmetric] refl b] function_header_blocks [OF h] n show ?case
    by simp
next
  case (3 frames tokens i)
  from "3.prems" "3.hyps" show ?case
    unfolding parse_if_statement.simps [of frames tokens i]
    by (auto split: if_splits sum.splits prod.splits dest: parse_expression_blocks(1))
next
  case (4 frames tokens i)
  from "4.prems" "4.hyps" show ?case
    unfolding parse_loop.simps [of frames tokens i] Let_def
    by (auto split: if_splits sum.splits prod.splits dest: parse_expression_blocks(1))
next
  case (5 frames tokens i)
  from "5.prems" "5.hyps" show ?case
    unfolding parse_block.simps [of frames tokens i] Let_def
    by (auto split: if_splits sum.splits prod.splits)
qed

lemma parse_program_loop_blocks:
  "parse_program_loop frames tokens i statements = Inr (tree, j) \<Longrightarrow>
     \<forall>s \<in> set statements. blocks_single s \<Longrightarrow> blocks_single tree"
proof (induction frames tokens i statements arbitrary: tree j rule: parse_program_loop.induct)
  case (1 frames tokens i statements)
  from "1.prems" "1.IH" show ?case
    unfolding parse_program_loop.simps [of frames tokens i statements]
    by (auto split: if_splits sum.splits prod.splits dest: parse_statement_blocks(1))
qed

lemma expect_Inl: "expect ty tokens j = Inl (e, k) \<Longrightarrow> k = j"
  by (auto simp: expect_def Let_def split: if_splits)

lemma expect_Inr: "expect ty tokens i = Inr (t, k) \<Longrightarrow> k = i + 1 \<and> tok_type (current_token tokens i) = ty"
  by (auto simp: expect_def Let_def split: if_splits)

lemma site_closing:
  "i < j \<Longrightarrow> is_delimiter ''('' (current_token tokens i) \<Longrightarrow>
     expect ''DELIMITER'' tokens j = Inl (e, k) \<Longrightarrow> raise_site tokens k e"
  unfolding raise_site_def using expect_Inl by blast

lemma site_for_variable:
  "is_keyword ''for'' (current_token tokens i) \<Longrightarrow>
     expect ''IDENTIFIER'' tokens (i + 1) = Inl (e, k) \<Longrightarrow> raise_site tokens k e"
  unfolding raise_site_def using expect_Inl [of "''IDENTIFIER''" tokens "i + 1" e k] by auto

lemma site_for_in:
  "is_keyword ''for'' (current_token tokens i) \<Longrightarrow>
     tok_type (current_token tokens (i + 1)) = ''IDENTIFIER'' \<Longrightarrow>
     \<not> is_keyword ''in'' (current_token tokens (i + 2)) \<Longrightarrow>
     raise_site tokens (i + 2) (SyntaxError msg_expected_in)"
  unfolding raise_site_def by simp

lemma parse_expression_raises:
  "parse_expression frames tokens i = Inl (e, k) \<Longrightarrow> e = RecursionError \<or> raise_site tokens k e"
  "parse_arguments frames tokens i args = Inl (e, k) \<Longrightarrow> e = RecursionError \<or> raise_site tokens k e"
proof (induct frames tokens i and frames tokens i args arbitrary: e k and e k
       rule: parse_expression_parse_arguments.induct)
  case (1 frames tokens i)
  let ?token = "current_token tokens i"
  show ?case
  proof (cases "frames = 0")
    case True
    with "1.prems" show ?thesis
      unfolding parse_expression.simps [of frames tokens i] by simp
  next
    case False
    note f = this
    show ?thesis
    proof (cases "tok_type ?token = ''IDENTIFIER'' \<and> is_delimiter ''('' (current_token tokens (i + 1))")
      case True
      note call = this
      from "1.prems" f have ne: "\<not> (tok_type ?token = ''INTEGER'' \<or> tok_type ?token = ''FLOAT'')"
          "tok_type ?token \<noteq> ''STRING''"
        unfolding parse_expression.simps [of frames tokens i] Let_def by (auto split: if_splits)
      show ?thesis
      proof (cases "is_delimiter '')'' (current_token tokens (i + 2))")
        case True
        with "1.prems" f call ne have "expect ''DELIMITER'' tokens (i + 2) = Inl (e, k)"
          unfolding parse_expression.simps [of frames tokens i] Let_def
          by (auto split: sum.splits)
        with call have "raise_site tokens k e" by (intro site_closing [of "i + 1" "i + 2"]) simp_all
        then show ?thesis ..
      next
        case False
        show ?thesis
        proof (cases "parse_arguments (frames - 1) tokens (i + 2) []")
          case (Inl r)
          with "1.prems" f call ne False have "r = (e, k)"
            unfolding parse_expression.simps [of frames tokens i] Let_def by simp
          with "1.hyps"(1) [OF f refl ne call [THEN conjunct1] call [THEN conjunct2] False] Inl
          show ?thesis by simp
        next
          case (Inr r)
          obtain as j where r: "r = (as, j)" by (cases r)
          from Inr r parse_arguments_progress have "i + 2 < j" by blast
          moreover from "1.prems" f call ne False Inr r have "expect ''DELIMITER'' tokens j = Inl (e, k)"
            unfolding parse_expression.simps [of frames tokens i] Let_def
            by (auto split: sum.splits)
          ultimately have "raise_site tokens k e" using call by (intro site_closing [of "i + 1" j]) simp_all
          then show ?thesis ..
        qed
      qed
    next
      case False
      note nocall = this
      from "1.prems" f nocall have ne: "\<not> (tok_type ?token = ''INTEGER'' \<or> tok_type ?token = ''FLOAT'')"
          "tok_type ?token \<noteq> ''STRING''" "tok_type ?token \<noteq> ''IDENTIFIER''"
          "is_delimiter ''('' ?token"
        unfolding parse_expression.simps [of frames tokens i] Let_def by (auto split: if_splits)
      show ?thesis
      proof (cases "parse_expression (frames - 1) tokens (i + 1)")
        case (Inl r)
        with "1.prems" f ne have "r = (e, k)"
          unfolding parse_expression.simps [of frames tokens i] Let_def by simp
        with "1.hyps"(2) [OF f refl ne] Inl show ?thesis by simp
      next
        case (Inr r)
        obtain n j where r: "r = (n, j)" by (cases r)
        from Inr r parse_expression_progress have "i + 1 < j" by blast
        moreover from "1.prems" f ne Inr r have "expect ''DELIMITER'' tokens j = Inl (e, k)"
          unfolding parse_expression.simps [of frames tokens i] Let_def
          by (auto split: sum.splits)
        ultimately have "raise_site tokens k e" using ne(4) by (intro site_closing [of i j]) simp_all
        then show ?thesis ..
      qed
    qed
  qed
next
  case (2 frames tokens i args)
  from "2.prems" "2.hyps" show ?case
    unfolding parse_arguments.simps [of frames tokens i args]
    by (auto split: if_splits sum.splits prod.splits)
qed

lemma parse_expression_statement_raises:
  "parse_expression_statement frames tokens i = Inl (e, k) \<Longrightarrow>
     e = RecursionError \<or> raise_site tokens k e"
  by (auto simp: parse_expression_statement_def Let_def split: if_splits sum.splits prod.splits
        dest: parse_expression_raises(1))

lemma parse_statement_raises:
  "parse_statement frames tokens i = Inl (e, k) \<Longrightarrow> e = RecursionError \<or> raise_site tokens k e"
  "parse_function_definition frames tokens i = Inl (e, k) \<Longrightarrow> e = RecursionError \<or> raise_site tokens k e"
  "parse_if_statement frames tokens i = Inl (e, k) \<Longrightarrow> e = RecursionError \<or> raise_site tokens k e"
  "parse_loop frames tokens i = Inl (e, k) \<Longrightarrow>
     is_keyword ''for'' (current_token tokens i) \<or> is_keyword ''while'' (current_token tokens i) \<Longrightarrow>
     e = RecursionError \<or> raise_site tokens k e"
  "parse_block frames tokens i = Inl (e, k) \<Longrightarrow> e = RecursionError \<or> raise_site tokens k e"
proof (induct frames tokens i and frames tokens i and frames tokens i and frames tokens i
         and frames tokens i
       arbitrary: e k and e k and e k and e k and e k
       rule: parse_statement_parse_function_definition_parse_if_statement_parse_loop_parse_block.induct)
  case (1 frames tokens i)
  from "1.prems" "1.hyps" show ?case
    unfolding parse_statement.simps [of frames tokens i] Let_def
    by (auto split: if_splits dest: parse_expression_statement_raises)
next
  case (2 frames tokens i)
  show ?case
  proof (cases "frames = 0")
    case True
    with "2.prems" show ?thesis
      unfolding parse_function_definition.simps [of frames tokens i] by simp
  next
    case False
    note f = this
    obtain name_value params i5 where h: "function_header tokens i = (name_value, params, i5)"
      by (cases "function_header tokens i") auto
    from "2.prems" f h have b: "parse_block (frames - 1) tokens i5 = Inl (e, k)"
      unfolding parse_function_definition.simps [of frames tokens i]
      by (auto split: sum.splits)
    from "2.hyps" [OF f h [symmetric] refl b] show ?thesis .
  qed
next
  case (3 frames tokens i)
  from "3.prems" "3.hyps" show ?case
    unfolding parse_if_statement.simps [of frames tokens i]
    by (auto split: if_splits sum.splits prod.splits dest: parse_expression_raises(1))
next
  case (4 frames tokens i)
  note kw = "4.prems"(2)
  show ?case
  proof (cases "frames = 0")
    case True
    with "4.prems"(1) show ?thesis
      unfolding parse_loop.simps [of frames tokens i] by simp
  next
    case False
    note f = this
    show ?thesis
    proof (cases "tok_value (current_token tokens i) = u ''for''")
      case True
      note forl = this
      with kw have isfor: "is_keyword ''for'' (current_token tokens i)"
        by (auto simp: is_keyword_def)
      show ?thesis
      proof (cases "expect ''IDENTIFIER'' tokens (i + 1)")
        case (Inl r)
        with "4.prems"(1) f forl have "r = (e, k)"
          unfolding parse_loop.simps [of frames tokens i] Let_def by simp
        with Inl isfor have "raise_site tokens k e" by (intro site_for_variable [of tokens i]) simp_all
        then show ?thesis ..
      next
        case (Inr r)
        note ex = this
        obtain var_token i2 where r: "r = (var_token, i2)" by (cases r)
        from Inr r expect_Inr have i2: "i2 = i + 2" and id: "tok_type (current_token tokens (i + 1)) = ''IDENTIFIER''"
          by fastforce+
        show ?thesis
        proof (cases "is_keyword ''in'' (current_token tokens i2)")
          case False
          with "4.prems"(1) f forl Inr r have "e = SyntaxError msg_expected_in" "k = i2"
            unfolding parse_loop.simps [of frames tokens i] Let_def by simp_all
          with isfor id False i2 site_for_in [of tokens i] show ?thesis by simp
        next
          case True
          note kin = this
          show ?thesis
          proof (cases "parse_expression (frames - 1) tokens (i2 + 1)")
            case (Inl r1)
            with "4.prems"(1) f forl ex r kin have "r1 = (e, k)"
              unfolding parse_loop.simps [of frames tokens i] Let_def by simp
            with Inl parse_expression_raises(1) show ?thesis by blast
          next
            case (Inr r2)
            obtain it j where r2: "r2 = (it, j)" by (cases r2)
            from "4.prems"(1) f forl ex r kin Inr r2
            have b: "parse_block (frames - 1) tokens j = Inl (e, k)"
              unfolding parse_loop.simps [of frames tokens i] Let_def by (auto split: sum.splits)
            from Inr r2 have it: "parse_expression (frames - 1) tokens (i2 + 1) = Inr (it, j)" by simp
            from ex r have ex': "expect ''IDENTIFIER'' tokens (i + 1) = Inr (var_token, i2)" by simp
            from "4.hyps"(1) [OF f refl forl ex' refl kin it refl b]
            show ?thesis .
          qed
        qed
      qed
    next
      case False
      show ?thesis
      proof (cases "parse_expression (frames - 1) tokens (i + 1)")
        case (Inl r)
        with "4.prems"(1) f False have "r = (e, k)"
          unfolding parse_loop.simps [of frames tokens i] Let_def by simp
        with Inl parse_expression_raises(1) show ?thesis by blast
      next
        case (Inr r)
        obtain c j where r: "r = (c, j)" by (cases r)
        from "4.prems"(1) f False Inr r have b: "parse_block (frames - 1) tokens j = Inl (e, k)"
          unfolding parse_loop.simps [of frames tokens i] Let_def by (auto split: sum.splits)
        from Inr r have c: "parse_expression (frames - 1) tokens (i + 1) = Inr (c, j)" by simp
        from "4.hyps"(2) [OF f refl False c refl b] show ?thesis .
      qed
    qed
  qed
next
  case (5 frames tokens i)
  from "5.prems" "5.hyps" show ?case
    unfolding parse_block.simps [of frames tokens i] Let_def
    by (auto split: if_splits sum.splits prod.splits)
qed

lemma parse_program_loop_raises:
  "parse_program_loop frames tokens i statements = Inl (e, k) \<Longrightarrow>
     e = RecursionError \<or> raise_site tokens k e"
proof (induction frames tokens i statements arbitrary: e k rule: parse_program_loop.induct)
  case (1 frames tokens i statements)
  from "1.prems" "1.IH" show ?case
    unfolding parse_program_loop.simps [of frames tokens i statements]
    by (auto split: if_splits sum.splits prod.splits dest: parse_statement_raises(1))
qed


lemma delimiter_in_range: "is_delimiter d (current_token tokens i) \<Longrightarrow> i < length tokens"
  by (auto simp: is_delimiter_def current_token_def Token_def split: if_splits)

lemma keyword_in_range: "is_keyword d (current_token tokens i) \<Longrightarrow> i < length tokens"
  by (auto simp: is_keyword_def current_token_def Token_def split: if_splits)

lemma not_EOF_in_range: "tok_type (current_token tokens i) \<noteq> ''EOF'' \<Longrightarrow> i < length tokens"
  by (auto simp: current_token_def Token_def split: if_splits)

lemma expect_not_RecursionError: "expect ty tokens j \<noteq> Inl (RecursionError, k)"
  by (auto simp: expect_def Let_def)

lemma parse_expression_enough:
  "parse_expression frames tokens i = Inl (e, k) \<Longrightarrow> length tokens - i < frames \<Longrightarrow>
     e \<noteq> RecursionError"
  "parse_arguments frames tokens i args = Inl (e, k) \<Longrightarrow> length tokens - i < frames \<Longrightarrow>
     e \<noteq> RecursionError"
proof (induct frames tokens i and frames tokens i args arbitrary: e k and e k
       rule: parse_expression_parse_arguments.induct)
  case (1 frames tokens i)
  let ?token = "current_token tokens i"
  from "1.prems"(2) have f: "frames \<noteq> 0" by simp
  show ?case
  proof (cases "tok_type ?token = ''IDENTIFIER'' \<and> is_delimiter ''('' (current_token tokens (i + 1))")
    case True
    note call = this
    from call delimiter_in_range have r: "i + 1 < length tokens" by blast
    from "1.prems" f have ne: "\<not> (tok_type ?token = ''INTEGER'' \<or> tok_type ?token = ''FLOAT'')"
        "tok_type ?token \<noteq> ''STRING''"
      unfolding parse_expression.simps [of frames tokens i] Let_def by (auto split: if_splits)
    show ?thesis
    proof (cases "is_delimiter '')'' (current_token tokens (i + 2))")
      case True
      with "1.prems" f call ne have "expect ''DELIMITER'' tokens (i + 2) = Inl (e, k)"
        unfolding parse_expression.simps [of frames tokens i] Let_def
        by (auto split: sum.splits)
      with expect_not_RecursionError show ?thesis by blast
    next
      case False
      show ?thesis
      proof (cases "parse_arguments (frames - 1) tokens (i + 2) []")
        case (Inl r1)
        with "1.prems" f call ne False have "r1 = (e, k)"
          unfolding parse_expression.simps [of frames tokens i] Let_def by simp
        with Inl have a: "parse_arguments (frames - 1) tokens (i + 2) [] = Inl (e, k)" by simp
        from "1.prems"(2) r have "length tokens - (i + 2) < frames - 1" by linarith
        from "1.hyps"(1) [OF f refl ne call [THEN conjunct1] call [THEN conjunct2] False a this]
        show ?thesis .
      next
        case (Inr r1)
        obtain as j where r1: "r1 = (as, j)" by (cases r1)
        from "1.prems" f call ne False Inr r1 have "expect ''DELIMITER'' tokens j = Inl (e, k)"
          unfolding parse_expression.simps [of frames tokens i] Let_def
          by (auto split: sum.splits)
        with expect_not_RecursionError show ?thesis by blast
      qed
    qed
  next
    case False
    note nocall = this
    from "1.prems" f nocall have ne: "\<not> (tok_type ?token = ''INTEGER'' \<or> tok_type ?token = ''FLOAT'')"
        "tok_type ?token \<noteq> ''STRING''" "tok_type ?token \<noteq> ''IDENTIFIER''"
        "is_delimiter ''('' ?token"
      unfolding parse_expression.simps [of frames tokens i] Let_def by (auto split: if_splits)
    from ne(4) delimiter_in_range have r: "i < length tokens" by blast
    show ?thesis
    proof (cases "parse_expression (frames - 1) tokens (i + 1)")
      case (Inl r1)
      with "1.prems" f ne have "r1 = (e, k)"
        unfolding parse_expression.simps [of frames tokens i] Let_def by simp
      with Inl have a: "parse_expression (frames - 1) tokens (i + 1) = Inl (e, k)" by simp
      from "1.prems"(2) r have "length tokens - (i + 1) < frames - 1" by linarith
      from "1.hyps"(2) [OF f refl ne a this] show ?thesis .
    next
      case (Inr r1)
      obtain n j where r1: "r1 = (n, j)" by (cases r1)
      from "1.prems" f ne Inr r1 have "expect ''DELIMITER'' tokens j = Inl (e, k)"
        unfolding parse_expression.simps [of frames tokens i] Let_def
        by (auto split: sum.splits)
      with expect_not_RecursionError show ?thesis by blast
    qed
  qed
next
  case (2 frames tokens i args)
  show ?case
  proof (cases "parse_expression frames tokens i")
    case (Inl r1)
    with "2.prems"(1) have "r1 = (e, k)"
      unfolding parse_arguments.simps [of frames tokens i args] by simp
    with Inl "2.hyps"(1) "2.prems"(2) show ?thesis by simp
  next
    case (Inr r1)
    obtain a j where r1: "r1 = (a, j)" by (cases r1)
    from Inr r1 have a: "parse_expression frames tokens i = Inr (a, j)" by simp
    from parse_expression_progress [OF a] have l: "i < j" .
    from "2.prems"(1) a have c: "is_delimiter '','' (current_token tokens j)"
      and b: "parse_arguments frames tokens (j + 1) (args @ [a]) = Inl (e, k)"
      unfolding parse_arguments.simps [of frames tokens i args] by (auto split: if_splits)
    from "2.prems"(2) l have "length tokens - (j + 1) < frames" by linarith
    from "2.hyps"(2) [OF a refl c b this] show ?thesis .
  qed
qed

lemma parse_expression_statement_enough:
  "parse_expression_statement frames tokens i = Inl (e, k) \<Longrightarrow> length tokens - i + 1 < frames \<Longrightarrow>
     e \<noteq> RecursionError"
proof -
  assume a: "parse_expression_statement frames tokens i = Inl (e, k)"
    and b: "length tokens - i + 1 < frames"
  from b have f: "frames \<noteq> 0" by simp
  from b have 1: "length tokens - i < frames - 1" and 2: "length tokens - (i + 2) < frames - 1"
    by linarith+
  from a f show ?thesis
    using parse_expression_enough(1) [OF _ 1] parse_expression_enough(1) [OF _ 2]
    by (auto simp: parse_expression_statement_def Let_def split: if_splits sum.splits)
qed

lemma parse_statement_enough:
  "parse_statement frames tokens i = Inl (e, k) \<Longrightarrow> i < length tokens \<Longrightarrow>
     3 * (length tokens - i) + 3 \<le> frames \<Longrightarrow> e \<noteq> RecursionError"
  "parse_function_definition frames tokens i = Inl (e, k) \<Longrightarrow> i < length tokens \<Longrightarrow>
     3 * (length tokens - i) + 2 \<le> frames \<Longrightarrow> e \<noteq> RecursionError"
  "parse_if_statement frames tokens i = Inl (e, k) \<Longrightarrow> i < length tokens \<Longrightarrow>
     3 * (length tokens - i) + 2 \<le> frames \<Longrightarrow> e \<noteq> RecursionError"
  "parse_loop frames tokens i = Inl (e, k) \<Longrightarrow> i < length tokens \<Longrightarrow>
     3 * (length tokens - i) + 2 \<le> frames \<Longrightarrow> e \<noteq> RecursionError"
  "parse_block frames tokens i = Inl (e, k) \<Longrightarrow>
     3 * (length tokens - i) + 4 \<le> frames \<Longrightarrow> e \<noteq> RecursionError"
proof (induct frames tokens i and frames tokens i and frames tokens i and frames tokens i
         and frames tokens i
       arbitrary: e k and e k and e k and e k and e k
       rule: parse_statement_parse_function_definition_parse_if_statement_parse_loop_parse_block.induct)
  case (1 frames tokens i)
  from "1.prems"(3) have f: "frames \<noteq> 0" by simp
  from "1.prems"(2,3) have b2: "3 * (length tokens - i) + 2 \<le> frames - 1"
    and b1: "length tokens - i + 1 < frames - 1" by linarith+
  let ?token = "current_token tokens i"
  show ?case
  proof (cases "is_keyword ''def'' ?token")
    case True
    with "1.prems"(1) f have "parse_function_definition (frames - 1) tokens i = Inl (e, k)"
      unfolding parse_statement.simps [of frames tokens i] Let_def by simp
    from "1.hyps"(1) [OF f refl True this "1.prems"(2) b2] show ?thesis .
  next
    case False
    note nd = this
    show ?thesis
    proof (cases "is_keyword ''if'' ?token")
      case True
      with "1.prems"(1) f nd have "parse_if_statement (frames - 1) tokens i = Inl (e, k)"
        unfolding parse_statement.simps [of frames tokens i] Let_def by simp
      from "1.hyps"(2) [OF f refl nd True this "1.prems"(2) b2] show ?thesis .
    next
      case False
      note ni = this
      show ?thesis
      proof (cases "is_keyword ''for'' ?token \<or> is_keyword ''while'' ?token")
        case True
        with "1.prems"(1) f nd ni have "parse_loop (frames - 1) tokens i = Inl (e, k)"
          unfolding parse_statement.simps [of frames tokens i] Let_def by simp
        from "1.hyps"(3) [OF f refl nd ni True this "1.prems"(2) b2] show ?thesis .
      next
        case False
        with "1.prems"(1) f nd ni have "parse_expression_statement (frames - 1) tokens i = Inl (e, k)"
          unfolding parse_statement.simps [of frames tokens i] Let_def by simp
        from parse_expression_statement_enough [OF this b1] show ?thesis .
      qed
    qed
  qed
next
  case (2 frames tokens i)
  from "2.prems"(3) have f: "frames \<noteq> 0" by simp
  obtain name_value params i5 where h: "function_header tokens i = (name_value, params, i5)"
    by (cases "function_header tokens i") auto
  from "2.prems"(1) f h have b: "parse_block (frames - 1) tokens i5 = Inl (e, k)"
    unfolding parse_function_definition.simps [of frames tokens i]
    by (auto split: sum.splits)
  from function_header_progress [OF h] "2.prems"(2,3)
  have "3 * (length tokens - i5) + 4 \<le> frames - 1" by linarith
  from "2.hyps" [OF f h [symmetric] refl b this] show ?case .
next
  case (3 frames tokens i)
  from "3.prems"(3) have f: "frames \<noteq> 0" by simp
  from "3.prems"(2,3) have be: "length tokens - (i + 1) < frames - 1" by linarith
  show ?case
  proof (cases "parse_expression (frames - 1) tokens (i + 1)")
    case (Inl r)
    with "3.prems"(1) f have "r = (e, k)"
      unfolding parse_if_statement.simps [of frames tokens i] by simp
    with Inl parse_expression_enough(1) [OF _ be] show ?thesis by simp
  next
    case (Inr r)
    obtain c j where r: "r = (c, j)" by (cases r)
    from Inr r have c: "parse_expression (frames - 1) tokens (i + 1) = Inr (c, j)" by simp
    from parse_expression_progress [OF c] have l1: "i + 1 < j" .
    with "3.prems"(2,3) have bj: "3 * (length tokens - j) + 4 \<le> frames - 1" by linarith
    show ?thesis
    proof (cases "parse_block (frames - 1) tokens j")
      case (Inl r1)
      with "3.prems"(1) f c have "r1 = (e, k)"
        unfolding parse_if_statement.simps [of frames tokens i] by simp
      with Inl have "parse_block (frames - 1) tokens j = Inl (e, k)" by simp
      from "3.hyps"(1) [OF f c refl this bj] show ?thesis .
    next
      case (Inr r1)
      obtain tb m where r1: "r1 = (tb, m)" by (cases r1)
      from Inr r1 have tb: "parse_block (frames - 1) tokens j = Inr (tb, m)" by simp
      from parse_block_progress [OF tb] have l2: "j \<le> m" .
      from "3.prems"(1) f c tb have el: "is_keyword ''else'' (current_token tokens m)"
        and eb: "parse_block (frames - 1) tokens (m + 1) = Inl (e, k)"
        unfolding parse_if_statement.simps [of frames tokens i]
        by (auto split: if_splits sum.splits)
      from l1 l2 "3.prems"(2,3) have "3 * (length tokens - (m + 1)) + 4 \<le> frames - 1" by linarith
      from "3.hyps"(2) [OF f c refl tb refl el eb this] show ?thesis .
    qed
  qed
next
  case (4 frames tokens i)
  from "4.prems"(3) have f: "frames \<noteq> 0" by simp
  show ?case
  proof (cases "tok_value (current_token tokens i) = u ''for''")
    case True
    note forl = this
    show ?thesis
    proof (cases "expect ''IDENTIFIER'' tokens (i + 1)")
      case (Inl r)
      with "4.prems"(1) f forl have "r = (e, k)"
        unfolding parse_loop.simps [of frames tokens i] Let_def by simp
      with Inl expect_not_RecursionError show ?thesis by blast
    next
      case (Inr r)
      obtain var_token i2 where r: "r = (var_token, i2)" by (cases r)
      from Inr r have ex: "expect ''IDENTIFIER'' tokens (i + 1) = Inr (var_token, i2)" by simp
      from expect_progress [OF ex] have i2: "i2 = i + 1 + 1" .
      show ?thesis
      proof (cases "is_keyword ''in'' (current_token tokens i2)")
        case False
        with "4.prems"(1) f forl ex show ?thesis
          unfolding parse_loop.simps [of frames tokens i] Let_def by auto
      next
        case True
        note kin = this
        from "4.prems"(2,3) i2 have be: "length tokens - (i2 + 1) < frames - 1" by linarith
        show ?thesis
        proof (cases "parse_expression (frames - 1) tokens (i2 + 1)")
          case (Inl r1)
          with "4.prems"(1) f forl ex kin have "r1 = (e, k)"
            unfolding parse_loop.simps [of frames tokens i] Let_def by simp
          with Inl parse_expression_enough(1) [OF _ be] show ?thesis by simp
        next
          case (Inr r2)
          obtain it j where r2: "r2 = (it, j)" by (cases r2)
          from Inr r2 have it: "parse_expression (frames - 1) tokens (i2 + 1) = Inr (it, j)" by simp
          from "4.prems"(1) f forl ex kin it
          have b: "parse_block (frames - 1) tokens j = Inl (e, k)"
            unfolding parse_loop.simps [of frames tokens i] Let_def by (auto split: sum.splits)
          from parse_expression_progress [OF it] i2 "4.prems"(2,3)
          have "3 * (length tokens - j) + 4 \<le> frames - 1" by linarith
          from "4.hyps"(1) [OF f refl forl ex refl kin it refl b this]
          show ?thesis .
        qed
      qed
    qed
  next
    case False
    from "4.prems"(2,3) have be: "length tokens - (i + 1) < frames - 1" by linarith
    show ?thesis
    proof (cases "parse_expression (frames - 1) tokens (i + 1)")
      case (Inl r)
      with "4.prems"(1) f False have "r = (e, k)"
        unfolding parse_loop.simps [of frames tokens i] Let_def by simp
      with Inl parse_expression_enough(1) [OF _ be] show ?thesis by simp
    next
      case (Inr r)
      obtain c j where r: "r = (c, j)" by (cases r)
      from Inr r have c: "parse_expression (frames - 1) tokens (i + 1) = Inr (c, j)" by simp
      from "4.prems"(1) f False c have b: "parse_block (frames - 1) tokens j = Inl (e, k)"
        unfolding parse_loop.simps [of frames tokens i] Let_def by (auto split: sum.splits)
      from parse_expression_progress [OF c] "4.prems"(2,3)
      have "3 * (length tokens - j) + 4 \<le> frames - 1" by linarith
      from "4.hyps"(2) [OF f refl False c refl b this] show ?thesis .
    qed
  qed
next
  case (5 frames tokens i)
  from "5.prems"(2) have f: "frames \<noteq> 0" by simp
  let ?i1 = "consume_if_delimiter '':'' tokens i"
  show ?case
  proof (cases "tok_type (current_token tokens ?i1) \<noteq> ''EOF''")
    case True
    with "5.prems"(1) f have st: "parse_statement (frames - 1) tokens ?i1 = Inl (e, k)"
      unfolding parse_block.simps [of frames tokens i] Let_def by (auto split: sum.splits)
    from True have r: "?i1 < length tokens" by (rule not_EOF_in_range)
    from consume_if_delimiter_le [of i "'':''" tokens] "5.prems"(2)
    have "3 * (length tokens - ?i1) + 3 \<le> frames - 1" by linarith
    from "5.hyps" [OF f refl True st r this] show ?thesis .
  next
    case False
    with "5.prems"(1) f show ?thesis
      unfolding parse_block.simps [of frames tokens i] Let_def by auto
  qed
qed

lemma parse_program_loop_enough:
  "parse_program_loop frames tokens i statements = Inl (e, k) \<Longrightarrow>
     3 * length tokens + 3 \<le> frames \<Longrightarrow> e \<noteq> RecursionError"
proof (induction frames tokens i statements arbitrary: e k rule: parse_program_loop.induct)
  case (1 frames tokens i statements)
  from "1.prems"(1) have ne: "tok_type (current_token tokens i) \<noteq> ''EOF''"
    unfolding parse_program_loop.simps [of frames tokens i statements] by (auto split: if_splits)
  from ne have r: "i < length tokens" by (rule not_EOF_in_range)
  from "1.prems"(2) have b: "3 * (length tokens - i) + 3 \<le> frames" by linarith
  show ?case
  proof (cases "parse_statement frames tokens i")
    case (Inl r1)
    with "1.prems"(1) ne have "r1 = (e, k)"
      unfolding parse_program_loop.simps [of frames tokens i statements] by simp
    with Inl parse_statement_enough(1) [OF _ r b] show ?thesis by simp
  next
    case (Inr r1)
    obtain s j where r1: "r1 = (s, j)" by (cases r1)
    from Inr r1 have s: "parse_statement frames tokens i = Inr (s, j)" by simp
    from "1.prems"(1) ne s have "parse_program_loop frames tokens j (statements @ [s]) = Inl (e, k)"
      unfolding parse_program_loop.simps [of frames tokens i statements] by simp
    from "1.IH" [OF ne s refl this "1.prems"(2)] show ?thesis .
  qed
qed


text \<open>
  The tokens of \<^verbatim>\<open>if x if x ... if x\<close>, n times, each \<^verbatim>\<open>if\<close> in the block of the one
  before, from text position p.
\<close>

fun nested_if :: "nat \<Rightarrow> nat \<Rightarrow> token list" where
  "nested_if p 0 = [Token ''EOF'' [] (int p)]"
| "nested_if p (Suc n) =
     Token ''KEYWORD'' (u ''if'') (int p) # Token ''IDENTIFIER'' (u ''x'') (int (p + 3))
       # nested_if (p + 5) n"

lemma current_token_Cons2: "current_token (a # b # ts) (Suc (Suc i)) = current_token ts i"
  by (simp add: current_token_def)

lemma nested_if_even:
  "j < n \<Longrightarrow> current_token (nested_if p n) (2 * j) = Token ''KEYWORD'' (u ''if'') (int (p + 5 * j))"
proof (induction n arbitrary: p j)
  case 0
  then show ?case by simp
next
  case (Suc n)
  show ?case
  proof (cases j)
    case 0
    then show ?thesis by (simp add: current_token_def)
  next
    case (Suc j')
    with Suc.prems have "j' < n" by simp
    from Suc.IH [OF this, of "p + 5"] Suc show ?thesis
      by (simp add: current_token_Cons2 algebra_simps del: u_simps)
  qed
qed

lemma nested_if_odd:
  "j < n \<Longrightarrow> current_token (nested_if p n) (2 * j + 1) = Token ''IDENTIFIER'' (u ''x'') (int (p + 5 * j + 3))"
proof (induction n arbitrary: p j)
  case 0
  then show ?case by simp
next
  case (Suc n)
  show ?case
  proof (cases j)
    case 0
    then show ?thesis by (simp add: current_token_def)
  next
    case (Suc j')
    with Suc.prems have "j' < n" by simp
    from Suc.IH [OF this, of "p + 5"] Suc show ?thesis
      by (simp add: current_token_Cons2 algebra_simps del: u_simps)
  qed
qed


lemma nested_if_exceeds:
  "j + q < n \<Longrightarrow>
     parse_statement (3 * q) (nested_if p n) (2 * j) = Inl (RecursionError, 2 * (j + q))"
proof (induction q arbitrary: j)
  case 0
  show ?case by (simp add: parse_statement.simps [of 0])
next
  case (Suc q)
  let ?ts = "nested_if p n"
  from Suc.prems have j: "j < n" and j1: "j + 1 < n" by simp_all
  have t0: "current_token ?ts (2 * j) = Token ''KEYWORD'' (u ''if'') (int (p + 5 * j))"
    using nested_if_even [OF j] .
  have t1: "current_token ?ts (2 * j + 1) = Token ''IDENTIFIER'' (u ''x'') (int (p + 5 * j + 3))"
    using nested_if_odd [OF j] .
  have t2: "current_token ?ts (2 * j + 2) = Token ''KEYWORD'' (u ''if'') (int (p + 5 * (j + 1)))"
    using nested_if_even [OF j1] by simp
  from Suc.prems have "j + 1 + q < n" by simp
  from Suc.IH [OF this]
  have ih: "parse_statement (3 * q) ?ts (2 * j + 2) = Inl (RecursionError, 2 * (j + 1 + q))"
    by (simp add: algebra_simps)
  have b: "parse_block (3 * q + 1) ?ts (2 * j + 2) = Inl (RecursionError, 2 * (j + 1 + q))"
    unfolding parse_block.simps [of "3 * q + 1"] consume_if_delimiter_def Let_def
    using t2 ih by (simp add: is_delimiter_def Token_def)
  have e: "parse_expression (3 * q + 1) ?ts (2 * j + 1) = Inr (ASTNode ''VARIABLE'' (Some (u ''x'')) [], 2 * j + 2)"
    unfolding parse_expression.simps [of "3 * q + 1"] Let_def
    using t1 t2 by (simp add: is_delimiter_def Token_def)
  have i: "parse_if_statement (3 * q + 2) ?ts (2 * j) = Inl (RecursionError, 2 * (j + 1 + q))"
    unfolding parse_if_statement.simps [of "3 * q + 2"]
    using e b by simp
  have "parse_statement (3 * q + 3) ?ts (2 * j) = Inl (RecursionError, 2 * (j + 1 + q))"
    unfolding parse_statement.simps [of "3 * q + 3"] Let_def
    using t0 i by (simp add: is_keyword_def Token_def)
  then show ?case by (simp add: algebra_simps)
qed

lemma parse_program_nested_if:
  "parse_program 1000 (nested_if 0 350) = Inl (RecursionError, 666)"
proof -
  have "parse_statement (3 * 333) (nested_if 0 350) (2 * 0) = Inl (RecursionError, 2 * (0 + 333))"
    by (rule nested_if_exceeds) simp
  then have s: "parse_statement 999 (nested_if 0 350) 0 = Inl (RecursionError, 666)" by simp
  have "current_token (nested_if 0 350) (2 * 0) = Token ''KEYWORD'' (u ''if'') (int (0 + 5 * 0))"
    by (rule nested_if_even) simp
  then have t: "tok_type (current_token (nested_if 0 350) 0) \<noteq> ''EOF''" by (simp add: Token_def)
  have "parse_program_loop 999 (nested_if 0 350) 0 [] = Inl (RecursionError, 666)"
    unfolding parse_program_loop.simps [of 999 _ 0] using s t by simp
  then show ?thesis by (simp add: parse_program_def)
qed


text \<open>
  C4.  Whatever the recursion limit, in every tree that parse returns each BLOCK node
  has at most one child.  The node parse\_block returns is a BLOCK node: after the
  optional colon, if the current token is not EOF its only child is the one statement
  parsed there and the cursor stops where that statement ends, whatever follows;
  otherwise it has no child.
\<close>

theorem C4_block_has_at_most_one_statement:
  "(parse frames tokens = Some tree \<longrightarrow> blocks_single tree)
   \<and> (parse_block frames tokens i = Inr (block_node, j) \<longrightarrow>
        node_type block_node = ''BLOCK'' \<and> length (children block_node) \<le> 1
        \<and> (if tok_type (current_token tokens (consume_if_delimiter '':'' tokens i)) \<noteq> ''EOF''
            then \<exists>statement. parse_statement (frames - 1) tokens (consume_if_delimiter '':'' tokens i)
                                = Inr (statement, j)
                   \<and> children block_node = [statement]
            else children block_node = [] \<and> j = consume_if_delimiter '':'' tokens i))"
proof (intro conjI impI)
  assume "parse frames tokens = Some tree"
  then obtain j where "parse_program_loop (frames - 1) tokens 0 [] = Inr (tree, j)"
    by (auto simp: parse_def parse_program_def split: sum.splits if_splits)
  then show "blocks_single tree" by (rule parse_program_loop_blocks) simp
next
  assume b: "parse_block frames tokens i = Inr (block_node, j)"
  then show "node_type block_node = ''BLOCK''"
    unfolding parse_block.simps [of frames tokens i] Let_def
    by (auto split: if_splits sum.splits)
  from b show "length (children block_node) \<le> 1"
    unfolding parse_block.simps [of frames tokens i] Let_def
    by (auto split: if_splits sum.splits)
  from b show "if tok_type (current_token tokens (consume_if_delimiter '':'' tokens i)) \<noteq> ''EOF''
            then \<exists>statement. parse_statement (frames - 1) tokens (consume_if_delimiter '':'' tokens i)
                                = Inr (statement, j)
                   \<and> children block_node = [statement]
            else children block_node = [] \<and> j = consume_if_delimiter '':'' tokens i"
    unfolding parse_block.simps [of frames tokens i] Let_def
    by (auto split: if_splits sum.splits)
qed

lemma parse_two_statements_after_colon:
  "parse 1000 two_statements_after_colon =
     Some (ASTNode ''PROGRAM'' None
       [ASTNode ''IF_STATEMENT'' None
          [ASTNode ''CONDITION'' None [ASTNode ''VARIABLE'' (Some (u ''x'')) []],
           ASTNode ''THEN'' None [ASTNode ''BLOCK'' None [ASTNode ''VARIABLE'' (Some (u ''a'')) []]]],
        ASTNode ''VARIABLE'' (Some (u ''b'')) []])"
  by code_simp

lemma parse_block_two_statements_after_colon:
  "parse_block 997 two_statements_after_colon 2 = Inr (ASTNode ''BLOCK'' None [ASTNode ''VARIABLE'' (Some (u ''a'')) []], 4)"
  by code_simp

theorem C4_witness:
  "parse 1000 two_statements_after_colon \<noteq> None
   \<and> blocks_single (the (parse 1000 two_statements_after_colon))
   \<and> length (children (ASTNode ''BLOCK'' None [ASTNode ''VARIABLE'' (Some (u ''a'')) []])) \<le> 1
   \<and> parse_statement 996 two_statements_after_colon 3 = Inr (ASTNode ''VARIABLE'' (Some (u ''a'')) [], 4)"
proof -
  note t = C4_block_has_at_most_one_statement [of 1000 two_statements_after_colon
      "the (parse 1000 two_statements_after_colon)"]
  note b = C4_block_has_at_most_one_statement [of 997 two_statements_after_colon undefined 2
      "ASTNode ''BLOCK'' None [ASTNode ''VARIABLE'' (Some (u ''a'')) []]" 4]
  have p: "parse 1000 two_statements_after_colon = Some (the (parse 1000 two_statements_after_colon))"
    by (simp add: parse_two_statements_after_colon)
  have c: "consume_if_delimiter '':'' two_statements_after_colon 2 = 3"
    by (simp add: consume_if_delimiter_def is_delimiter_def current_token_def
          two_statements_after_colon_def Token_def)
  have e: "tok_type (current_token two_statements_after_colon 3) \<noteq> ''EOF''"
    by (simp add: current_token_def two_statements_after_colon_def Token_def)
  from t p have 1: "blocks_single (the (parse 1000 two_statements_after_colon))" by blast
  from b parse_block_two_statements_after_colon c e
  have 2: "parse_statement 996 two_statements_after_colon 3 = Inr (ASTNode ''VARIABLE'' (Some (u ''a'')) [], 4)"
    by auto
  have 0: "parse 1000 two_statements_after_colon \<noteq> None"
    by (simp add: parse_two_statements_after_colon)
  from 0 1 2 show ?thesis by simp
qed

lemma raise_site_needs_token:
  assumes "raise_site tokens k e"
  shows "\<exists>t \<in> set tokens. is_delimiter ''('' t \<or> is_keyword ''for'' t"
proof -
  from assms obtain i where "is_delimiter ''('' (current_token tokens i) \<or> is_keyword ''for'' (current_token tokens i)"
    unfolding raise_site_def by blast
  then have "i < length tokens" using delimiter_in_range keyword_in_range by blast
  with \<open>is_delimiter ''('' (current_token tokens i) \<or> is_keyword ''for'' (current_token tokens i)\<close>
  show ?thesis by (auto simp: current_token_def intro!: bexI [of _ "tokens ! i"])
qed


lemma parse_program_for_without_in:
  "parse_program 1000 for_without_in = Inl (SyntaxError msg_expected_in, 2)"
  by code_simp



section \<open>Properties of the code generator\<close>

lemma str_of_nat_digits: "c \<in> set (str_of_nat n) \<Longrightarrow> 48 \<le> c \<and> c \<le> 57"
proof (induction n arbitrary: c rule: str_of_nat.induct)
  case (1 n)
  show ?case
  proof (cases "n < 10")
    case True
    with "1.prems" show ?thesis by (simp add: str_of_nat.simps [of n])
  next
    case False
    with "1.prems" have "c \<in> set (str_of_nat (n div 10)) \<or> c = 48 + n mod 10"
      by (auto simp: str_of_nat.simps [of n])
    with "1.IH" [OF False] show ?thesis by auto
  qed
qed

lemma msg_join_line: "10 \<notin> set (msg_join n)"
  using str_of_nat_digits [of 10 n] by (auto simp: msg_join_def)

lemma body_or_pass_Inl: "body_or_pass c p = Inl e \<Longrightarrow> generation_error e"
  by (auto simp: body_or_pass_def generation_error_def msg_no_attribute_def split: option.splits if_splits)

lemma py_join_Inl: "py_join sep items = Inl e \<Longrightarrow> generation_error e"
  by (auto simp: py_join_def generation_error_def msg_join_line split: option.splits)

lemma format_python_code_Inl: "format_python_code c = Inl e \<Longrightarrow> generation_error e"
  by (auto simp: format_python_code_def generation_error_def msg_no_attribute_def split: option.splits)

lemma generation_error_IndexError: "generation_error IndexError"
  by (simp add: generation_error_def)

lemma generation_error_none_plus_str: "generation_error (TypeError msg_none_plus_str)"
  by (simp add: generation_error_def msg_none_plus_str_def)


lemma generation_error_RecursionError: "generation_error RecursionError"
  by (simp add: generation_error_def)

lemma generate_program_loop_Inl:
  assumes "\<forall>n l e. gen n l = Inl e \<longrightarrow> generation_error e"
  shows "generate_program_loop gen cs lvl code = Inl e \<Longrightarrow> generation_error e"
proof (induction cs arbitrary: code)
  case Nil
  then show ?case by simp
next
  case (Cons c cs)
  show ?case
  proof (cases "gen c lvl")
    case (Inl e')
    with Cons.prems have "e' = e" by simp
    with Inl assms show ?thesis by simp
  next
    case (Inr r)
    show ?thesis
    proof (cases r)
      case None
      with Inr Cons.prems show ?thesis by (auto simp: generation_error_none_plus_str)
    next
      case (Some s)
      with Inr Cons.prems have "generate_program_loop gen cs lvl (code @ s @ [10, 10]) = Inl e" by simp
      with Cons.IH show ?thesis by blast
    qed
  qed
qed

lemma generate_block_loop_Inl:
  assumes "\<forall>n l e. gen n l = Inl e \<longrightarrow> generation_error e"
  shows "generate_block_loop gen cs lvl code = Inl e \<Longrightarrow> generation_error e"
proof (induction cs arbitrary: code)
  case Nil
  then show ?case by simp
next
  case (Cons c cs)
  show ?case
  proof (cases "gen c lvl")
    case (Inl e')
    with Cons.prems have "e' = e" by simp
    with Inl assms show ?thesis by simp
  next
    case (Inr r)
    with Cons.prems obtain code' where "generate_block_loop gen cs lvl code' = Inl e" by simp
    with Cons.IH show ?thesis by blast
  qed
qed

lemma generate_arguments_loop_Inl:
  assumes "\<forall>n l e. gen n l = Inl e \<longrightarrow> generation_error e"
  shows "generate_arguments_loop gen cs lvl args = Inl e \<Longrightarrow> generation_error e"
proof (induction cs arbitrary: args)
  case Nil
  then show ?case by simp
next
  case (Cons c cs)
  show ?case
  proof (cases "gen c lvl")
    case (Inl e')
    with Cons.prems have "e' = e" by simp
    with Inl assms show ?thesis by simp
  next
    case (Inr r)
    with Cons.prems have "generate_arguments_loop gen cs lvl (args @ [r]) = Inl e" by simp
    with Cons.IH show ?thesis by blast
  qed
qed

lemma handlers_Inl:
  assumes g0: "\<forall>n l e. gen n l = Inl e \<longrightarrow> generation_error e"
  shows "generate_program gen node lvl = Inl e \<Longrightarrow> generation_error e"
    and "generate_function_def gen node lvl = Inl e \<Longrightarrow> generation_error e"
    and "generate_block gen node lvl = Inl e \<Longrightarrow> generation_error e"
    and "generate_if_statement gen node lvl = Inl e \<Longrightarrow> generation_error e"
    and "generate_for_loop gen node lvl = Inl e \<Longrightarrow> generation_error e"
    and "generate_while_loop gen node lvl = Inl e \<Longrightarrow> generation_error e"
    and "generate_assignment gen node lvl = Inl e \<Longrightarrow> generation_error e"
    and "generate_function_call gen node lvl = Inl e \<Longrightarrow> generation_error e"
    and "generate_first_child gen node lvl = Inl e \<Longrightarrow> generation_error e"
    and "generate_arguments gen node lvl = Inl e \<Longrightarrow> generation_error e"
proof -
  from g0 have g: "\<And>n l e. gen n l = Inl e \<Longrightarrow> generation_error e" by blast
  show "generate_program gen node lvl = Inl e \<Longrightarrow> generation_error e"
  proof -
    assume "generate_program gen node lvl = Inl e"
    then obtain code where "generate_program_loop gen (children node) lvl code = Inl e"
      unfolding generate_program_def by (auto split: sum.splits)
    then show "generation_error e" by (rule generate_program_loop_Inl [OF g0])
  qed
  show "generate_function_def gen node lvl = Inl e \<Longrightarrow> generation_error e"
    unfolding generate_function_def_def
    by (auto split: list.splits sum.splits dest: g body_or_pass_Inl simp: generation_error_IndexError)
  show "generate_block gen node lvl = Inl e \<Longrightarrow> generation_error e"
    unfolding generate_block_def
    by (auto split: sum.splits dest: generate_block_loop_Inl [OF g0])
  show "generate_if_statement gen node lvl = Inl e \<Longrightarrow> generation_error e"
    unfolding generate_if_statement_def Let_def
    by (auto split: list.splits sum.splits dest: g body_or_pass_Inl simp: generation_error_IndexError)
  show "generate_for_loop gen node lvl = Inl e \<Longrightarrow> generation_error e"
    unfolding generate_for_loop_def
    by (auto split: list.splits sum.splits dest: g body_or_pass_Inl simp: generation_error_IndexError)
  show "generate_while_loop gen node lvl = Inl e \<Longrightarrow> generation_error e"
    unfolding generate_while_loop_def
    by (auto split: list.splits sum.splits dest: g body_or_pass_Inl simp: generation_error_IndexError)
  show "generate_assignment gen node lvl = Inl e \<Longrightarrow> generation_error e"
    unfolding generate_assignment_def
    by (auto split: list.splits sum.splits dest: g simp: generation_error_IndexError)
  show "generate_function_call gen node lvl = Inl e \<Longrightarrow> generation_error e"
    unfolding generate_function_call_def
    by (auto split: list.splits sum.splits dest: g simp: generation_error_IndexError)
  show "generate_first_child gen node lvl = Inl e \<Longrightarrow> generation_error e"
    unfolding generate_first_child_def
    by (auto split: list.splits dest: g)
  show "generate_arguments gen node lvl = Inl e \<Longrightarrow> generation_error e"
    unfolding generate_arguments_def
    by (auto split: sum.splits dest: generate_arguments_loop_Inl [OF g0] py_join_Inl)
qed

lemma generate_parameters_Inl: "generate_parameters node = Inl e \<Longrightarrow> generation_error e"
  unfolding generate_parameters_def by (auto split: sum.splits dest: py_join_Inl)

lemma generate_node_Inl: "generate_node frames n lvl = Inl e \<Longrightarrow> generation_error e"
proof (induction frames arbitrary: n lvl e rule: less_induct)
  case (less frames)
  show ?case
  proof (cases "frames = 0 \<or> (has_generator (node_type n) \<and> frames = 1)")
    case True
    with less.prems have "e = RecursionError"
      unfolding generate_node.simps [of frames n lvl] by (auto split: if_splits)
    then show ?thesis by (simp add: generation_error_RecursionError)
  next
    case False
    then have f: "frames - 2 < frames" by auto
    have g: "\<forall>n l e. generate_node (frames - 2) n l = Inl e \<longrightarrow> generation_error e"
      using less.IH [OF f] by blast
    from less.prems False show ?thesis
      unfolding generate_node.simps [of frames n lvl]
      by (auto split: if_splits dest: handlers_Inl [OF g] generate_parameters_Inl
            simp: generate_variable_def generate_literal_def generate_expression_def has_generator_def)
  qed
qed

lemma exn_str_line:
  "generation_error e \<Longrightarrow> 10 \<notin> set recursion_message \<Longrightarrow> 10 \<notin> set (exn_str recursion_message e)"
  by (cases e) (auto simp: generation_error_def exn_str_def)

lemma generate_nested_block:
  "frames < 2 * n \<Longrightarrow> generate_node frames (nested_block n) lvl = Inl RecursionError"
proof (induction n arbitrary: frames)
  case 0
  then show ?case by simp
next
  case (Suc n)
  show ?case
  proof (cases "frames < 2")
    case True
    then have "frames = 0 \<or> frames = 1" by linarith
    then show ?thesis by (auto simp: generate_node.simps [of frames] has_generator_def)
  next
    case False
    with Suc.prems have "frames - 2 < 2 * n" by simp
    from Suc.IH [OF this] False show ?thesis
      by (simp add: generate_node.simps [of frames "ASTNode ''BLOCK'' None [nested_block n]"]
            has_generator_def generate_block_def)
  qed
qed

text \<open>
  C3.  generate is a total function to text.  Whatever the node and whatever the
  recursion limit, an exception of the walk is an IndexError, a TypeError or an
  AttributeError with a one-line message, or the RecursionError of the interpreter,
  and the formatting raises only on None, with an AttributeError.  In both cases
  generate returns the comment that describes the error: the number sign and the
  words "Error en la generaci\'on de c\'odigo: " followed by the text of the
  exception, on one line when the interpreter's text for a RecursionError is.
  Otherwise it returns the formatted code.
\<close>

theorem C3_generate_always_returns_text:
  "(generate_node frames tree indent_level = Inl e \<longrightarrow> generation_error e)
   \<and> (format_python_code code = Inl e \<longrightarrow>
        code = None \<and> e = AttributeError (msg_no_attribute ''split''))
   \<and> (generate_node frames tree indent_level = Inl e
        \<or> (generate_node frames tree indent_level = Inr code \<and> format_python_code code = Inl e)
       \<longrightarrow> generate recursion_message frames indent_level tree
             = u ''# Error en la generaci'' @ [243] @ u ''n de c'' @ [243] @ u ''digo: ''
               @ exn_str recursion_message e
           \<and> hd (generate recursion_message frames indent_level tree) = 35
           \<and> (10 \<notin> set recursion_message
                \<longrightarrow> 10 \<notin> set (generate recursion_message frames indent_level tree)))
   \<and> (generate_node frames tree indent_level = Inr code \<and> format_python_code code = Inr formatted_code
       \<longrightarrow> generate recursion_message frames indent_level tree = formatted_code)
   \<and> exn_str recursion_message IndexError = u ''list index out of range''
   \<and> exn_str recursion_message (TypeError m) = m
   \<and> exn_str recursion_message (AttributeError m) = m
   \<and> exn_str recursion_message RecursionError = recursion_message"
proof (intro conjI impI)
  show "generation_error e" if "generate_node frames tree indent_level = Inl e"
    using that by (rule generate_node_Inl)
  show "code = None" if "format_python_code code = Inl e"
    using that by (auto simp: format_python_code_def split: option.splits)
  show "e = AttributeError (msg_no_attribute ''split'')" if "format_python_code code = Inl e"
    using that by (auto simp: format_python_code_def split: option.splits)
  show "exn_str recursion_message IndexError = u ''list index out of range''"
    "exn_str recursion_message (TypeError m) = m"
    "exn_str recursion_message (AttributeError m) = m"
    "exn_str recursion_message RecursionError = recursion_message"
    by (simp_all add: exn_str_def)
next
  assume a: "generate_node frames tree indent_level = Inl e
        \<or> (generate_node frames tree indent_level = Inr code \<and> format_python_code code = Inl e)"
  then have g: "generation_error e"
    using generate_node_Inl format_python_code_Inl by blast
  from a show c: "generate recursion_message frames indent_level tree
             = u ''# Error en la generaci'' @ [243] @ u ''n de c'' @ [243] @ u ''digo: ''
               @ exn_str recursion_message e"
    by (auto simp: generate_def error_comment_def)
  from c show "hd (generate recursion_message frames indent_level tree) = 35" by simp
  show "10 \<notin> set (generate recursion_message frames indent_level tree)"
    if "10 \<notin> set recursion_message"
    using exn_str_line [OF g that] c by simp
next
  assume "generate_node frames tree indent_level = Inr code \<and> format_python_code code = Inr formatted_code"
  then show "generate recursion_message frames indent_level tree = formatted_code"
    by (simp add: generate_def)
qed

theorem C3_witness:
  "generate_node 1000 (ASTNode ''IF_STATEMENT'' None []) 0 = Inl IndexError
   \<and> generate (u ''maximum recursion depth exceeded'') 1000 0 (ASTNode ''IF_STATEMENT'' None [])
       = u ''# Error en la generaci'' @ [243] @ u ''n de c'' @ [243] @ u ''digo: list index out of range''
   \<and> 10 \<notin> set (generate (u ''maximum recursion depth exceeded'') 1000 0 (ASTNode ''IF_STATEMENT'' None []))
   \<and> generate_node 1000 (ASTNode ''VARIABLE'' None []) 0 = Inr None
   \<and> format_python_code None = Inl (AttributeError (msg_no_attribute ''split''))
   \<and> generate (u ''maximum recursion depth exceeded'') 1000 0 (ASTNode ''VARIABLE'' None [])
       = u ''# Error en la generaci'' @ [243] @ u ''n de c'' @ [243] @ u ''digo: '' @ [39]
         @ u ''NoneType'' @ [39] @ u '' object has no attribute '' @ [39] @ u ''split'' @ [39]
   \<and> generate_node 1000 (nested_block 600) 0 = Inl RecursionError
   \<and> generate (u ''maximum recursion depth exceeded'') 1000 0 (nested_block 600)
       = u ''# Error en la generaci'' @ [243] @ u ''n de c'' @ [243]
         @ u ''digo: maximum recursion depth exceeded''
   \<and> generate_node 1000 (ASTNode ''LITERAL'' (Some (u ''5'')) []) 0 = Inr (Some (u ''5''))
   \<and> generate (u ''maximum recursion depth exceeded'') 1000 0 (ASTNode ''LITERAL'' (Some (u ''5'')) [])
       = u ''5''"
proof -
  let ?m = "u ''maximum recursion depth exceeded''"
  have 1: "generate_node 1000 (ASTNode ''IF_STATEMENT'' None []) 0 = Inl IndexError"
    by (simp add: generate_node.simps [of 1000] has_generator_def generate_if_statement_def)
  have 2: "generate_node 1000 (ASTNode ''VARIABLE'' None []) 0 = Inr None"
    by (simp add: generate_node.simps [of 1000] has_generator_def generate_variable_def)
  have 3: "format_python_code None = Inl (AttributeError (msg_no_attribute ''split''))"
    by (simp add: format_python_code_def)
  have 4: "generate_node 1000 (ASTNode ''LITERAL'' (Some (u ''5'')) []) 0 = Inr (Some (u ''5''))"
    by (simp add: generate_node.simps [of 1000] has_generator_def generate_literal_def py_str_def)
  have 5: "format_python_code (Some (u ''5'')) = Inr (u ''5'')"
    by (simp add: format_python_code_def split_lines_def str_strip_def isspace_def indent_def)
  have 6: "generate_node 1000 (nested_block 600) 0 = Inl RecursionError"
    by (rule generate_nested_block) simp
  have 7: "10 \<notin> set ?m" by simp
  note a = C3_generate_always_returns_text [of 1000 "ASTNode ''IF_STATEMENT'' None []" 0 IndexError
      undefined ?m undefined undefined]
  note b = C3_generate_always_returns_text [of 1000 "ASTNode ''VARIABLE'' None []" 0
      "AttributeError (msg_no_attribute ''split'')" None ?m undefined "msg_no_attribute ''split''"]
  note c = C3_generate_always_returns_text [of 1000 "ASTNode ''LITERAL'' (Some (u ''5'')) []" 0 undefined
      "Some (u ''5'')" ?m "u ''5''" undefined]
  note d = C3_generate_always_returns_text [of 1000 "nested_block 600" 0 RecursionError
      undefined ?m undefined undefined]
  from a 1 7 have a1: "generate ?m 1000 0 (ASTNode ''IF_STATEMENT'' None [])
       = u ''# Error en la generaci'' @ [243] @ u ''n de c'' @ [243] @ u ''digo: '' @ exn_str ?m IndexError"
    and a2: "10 \<notin> set (generate ?m 1000 0 (ASTNode ''IF_STATEMENT'' None []))"
    and a3: "exn_str ?m IndexError = u ''list index out of range''"
    by blast+
  from b 2 3 have b1: "generate ?m 1000 0 (ASTNode ''VARIABLE'' None [])
       = u ''# Error en la generaci'' @ [243] @ u ''n de c'' @ [243] @ u ''digo: ''
         @ exn_str ?m (AttributeError (msg_no_attribute ''split''))"
    and b3: "exn_str ?m (AttributeError (msg_no_attribute ''split'')) = msg_no_attribute ''split''"
    by blast+
  from c 4 5 have c1: "generate ?m 1000 0 (ASTNode ''LITERAL'' (Some (u ''5'')) []) = u ''5''"
    by blast
  from d 6 have d1: "generate ?m 1000 0 (nested_block 600)
       = u ''# Error en la generaci'' @ [243] @ u ''n de c'' @ [243] @ u ''digo: '' @ exn_str ?m RecursionError"
    and d3: "exn_str ?m RecursionError = ?m"
    by blast+
  from a1 a3 have a4: "generate ?m 1000 0 (ASTNode ''IF_STATEMENT'' None [])
       = u ''# Error en la generaci'' @ [243] @ u ''n de c'' @ [243] @ u ''digo: list index out of range''"
    by simp
  from b1 b3 have b4: "generate ?m 1000 0 (ASTNode ''VARIABLE'' None [])
       = u ''# Error en la generaci'' @ [243] @ u ''n de c'' @ [243] @ u ''digo: '' @ [39]
         @ u ''NoneType'' @ [39] @ u '' object has no attribute '' @ [39] @ u ''split'' @ [39]"
    by (simp add: msg_no_attribute_def)
  from d1 d3 have d4: "generate ?m 1000 0 (nested_block 600)
       = u ''# Error en la generaci'' @ [243] @ u ''n de c'' @ [243]
         @ u ''digo: maximum recursion depth exceeded''"
    by simp
  from 1 2 3 4 6 a2 a4 b4 c1 d4 show ?thesis by (simp only: simp_thms)
qed

end
